theory Spec2Isabelle
  imports Main "HOL-Library.Word"
begin

unbundle bit_operations_syntax

section \<open>Page cache (Libs/PageCacheClass.hpp)\<close>

text \<open>
  \<^verbatim>\<open>template <typename ADDRESS_TYPE, unsigned int PAGE_SIZE> class PageCacheClass\<close>.
  \<open>ADDRESS_TYPE\<close> is an unsigned integer of some width: the records below leave the
  address type \<open>'w\<close> open and every operation fixes it to \<open>'a word\<close>;
  \<open>PAGE_SIZE\<close> is a natural number passed to every operation. Lengths
  (\<^verbatim>\<open>unsigned int len\<close>) only ever decrease in this class and every subtraction is
  guarded by a comparison, so they are natural numbers.
\<close>

type_synonym byte = "8 word"

datatype StatusEnum = Empty | HasData | Dirty

text \<open>
  \<^verbatim>\<open>PreFlushCallbackStruct\<close>: a function pointer (\<open>None\<close> is \<^verbatim>\<open>nullptr\<close>, otherwise the
  identity of the function) and the user argument.
\<close>

record PreFlushCallbackStruct =
  Callback :: "nat option"
  arg :: nat

text \<open>
  What the cache does to the outside world, in the order it does it. A callback event
  records the function called and what it receives in its four parameters
  \<^verbatim>\<open>(const void *buffer, unsigned int len, ADDRESS_TYPE address, void *arg)\<close>, in
  that order; \<^verbatim>\<open>unsigned int\<close> has 32 bits, as on the Cortex-M targets of the library.
  The callback takes the buffer as \<^verbatim>\<open>const void *\<close> and returns \<^verbatim>\<open>void\<close>: it is an
  observer, and the call leaves the object as it is.
\<close>

datatype 'w event =
    EvWrite "byte list" 'w nat
  | EvRead 'w nat
  | EvCallback nat "byte list" "32 word" 'w nat

text \<open>
  The two pure virtual functions \<^verbatim>\<open>Write\<close> and \<^verbatim>\<open>Read\<close> are supplied by the derived
  class. They act on the derived class's own state \<open>'d\<close> and do not touch the three
  members of the cache. \<open>Read\<close> yields the bytes it delivered, or \<open>None\<close> when it
  returns \<^verbatim>\<open>false\<close>; a failed \<open>Read\<close> leaves its destination as it was.
\<close>

record ('w, 'd) driver =
  Write :: "'d \<Rightarrow> byte list \<Rightarrow> 'w \<Rightarrow> nat \<Rightarrow> bool \<times> 'd"
  Read :: "'d \<Rightarrow> 'w \<Rightarrow> nat \<Rightarrow> byte list option \<times> 'd"

text \<open>
  The object: the three data members of the class, the state \<open>backing\<close> of the derived
  class that implements the medium, and the \<open>trace\<close> of events so far.
\<close>

record ('w, 'd) PageCacheClass =
  m_Address :: 'w
  m_Status :: StatusEnum
  m_Buffer :: "byte list"
  backing :: 'd
  trace :: "'w event list"

definition do_Write ::
  "('a::len word, 'd) driver \<Rightarrow> byte list \<Rightarrow> 'a word \<Rightarrow> nat \<Rightarrow> ('a word, 'd) PageCacheClass
     \<Rightarrow> bool \<times> ('a word, 'd) PageCacheClass" where
  "do_Write drv buffer address len c =
     (let (ok, d) = Write drv (backing c) buffer address len
      in (ok, c\<lparr>backing := d, trace := trace c @ [EvWrite buffer address len]\<rparr>))"

definition do_Read ::
  "('a::len word, 'd) driver \<Rightarrow> 'a word \<Rightarrow> nat \<Rightarrow> ('a word, 'd) PageCacheClass
     \<Rightarrow> byte list option \<times> ('a word, 'd) PageCacheClass" where
  "do_Read drv address len c =
     (let (r, d) = Read drv (backing c) address len
      in (r, c\<lparr>backing := d, trace := trace c @ [EvRead address len]\<rparr>))"

text \<open>\<^verbatim>\<open>memcpy(&buf[off], src, n)\<close> on an array of fixed size.\<close>

definition store_at :: "byte list \<Rightarrow> nat \<Rightarrow> byte list \<Rightarrow> nat \<Rightarrow> byte list" where
  "store_at buf off src n =
     map (\<lambda>i. if off \<le> i \<and> i < off + n then src ! (i - off) else buf ! i) [0..<length buf]"

text \<open>\<^verbatim>\<open>Read(&m_Buffer[off], address, len)\<close>.\<close>

definition Read_buf ::
  "('a::len word, 'd) driver \<Rightarrow> nat \<Rightarrow> 'a word \<Rightarrow> nat \<Rightarrow> ('a word, 'd) PageCacheClass
     \<Rightarrow> bool \<times> ('a word, 'd) PageCacheClass" where
  "Read_buf drv off address len c =
     (let (r, c1) = do_Read drv address len c
      in case r of
           None \<Rightarrow> (False, c1)
         | Some bytes \<Rightarrow> (True, c1\<lparr>m_Buffer := store_at (m_Buffer c1) off bytes len\<rparr>))"

definition isInCache :: "nat \<Rightarrow> ('a::len word, 'd) PageCacheClass \<Rightarrow> 'a word \<Rightarrow> bool" where
  "isInCache PAGE_SIZE c address \<longleftrightarrow>
     m_Status c \<noteq> Empty \<and> m_Address c = address AND NOT (of_nat PAGE_SIZE - 1)"

definition Clear :: "('a::len word, 'd) PageCacheClass \<Rightarrow> ('a word, 'd) PageCacheClass" where
  "Clear c = c\<lparr>m_Status := Empty\<rparr>"

text \<open>
  \<^verbatim>\<open>Flush\<close> calls \<^verbatim>\<open>callback->Callback(m_Buffer, m_Address, sizeof(m_Buffer), callback->arg)\<close>.
  The second argument, \<^verbatim>\<open>m_Address\<close>, initialises the parameter \<^verbatim>\<open>unsigned int len\<close>
  and is converted to 32 bits; the third, \<^verbatim>\<open>sizeof(m_Buffer)\<close>, initialises the
  parameter \<^verbatim>\<open>ADDRESS_TYPE address\<close> and is converted to the address type.
\<close>

definition Flush ::
  "nat \<Rightarrow> ('a::len word, 'd) driver \<Rightarrow> PreFlushCallbackStruct option \<Rightarrow> ('a word, 'd) PageCacheClass
     \<Rightarrow> bool \<times> ('a word, 'd) PageCacheClass" where
  "Flush PAGE_SIZE drv callback c =
     (if m_Status c = Dirty then
        let c1 = (case callback of
                    None \<Rightarrow> c
                  | Some cb \<Rightarrow>
                      (case Callback cb of
                         None \<Rightarrow> c
                       | Some f \<Rightarrow>
                           c\<lparr>trace := trace c @
                              [EvCallback f (m_Buffer c) (ucast (m_Address c)) (of_nat PAGE_SIZE)
                                 (arg cb)]\<rparr>));
            (ok, c2) = do_Write drv (m_Buffer c1) (m_Address c1) PAGE_SIZE c1
        in if \<not> ok then (False, c2) else (True, Clear c2)
      else (True, c))"

definition setAddress ::
  "nat \<Rightarrow> ('a::len word, 'd) driver \<Rightarrow> 'a word \<Rightarrow> PreFlushCallbackStruct option
     \<Rightarrow> ('a word, 'd) PageCacheClass \<Rightarrow> bool \<times> ('a word, 'd) PageCacheClass" where
  "setAddress PAGE_SIZE drv address callback c =
     (let (ok, c1) = (if m_Status c = Dirty \<and> \<not> isInCache PAGE_SIZE c address
                      then Flush PAGE_SIZE drv callback c else (True, c))
      in if \<not> ok then (False, c1)
         else (True, c1\<lparr>m_Address := address AND NOT (of_nat PAGE_SIZE - 1)\<rparr>))"

text \<open>
  The branch of \<^verbatim>\<open>SetData\<close> commented \<^verbatim>\<open>data is page unaligned // use cache buffer\<close>, up to
  and including \<^verbatim>\<open>m_Status = StatusEnum::Dirty\<close>. The pointer and length updates that
  follow it are done by the loop below.
\<close>

definition SetData_unaligned ::
  "nat \<Rightarrow> ('a::len word, 'd) driver \<Rightarrow> PreFlushCallbackStruct option \<Rightarrow> byte list \<Rightarrow> 'a word
     \<Rightarrow> nat \<Rightarrow> ('a word, 'd) PageCacheClass \<Rightarrow> bool \<times> ('a word, 'd) PageCacheClass" where
  "SetData_unaligned PAGE_SIZE drv callback data address len c =
     (let (ok1, c1) = setAddress PAGE_SIZE drv address callback c
      in if \<not> ok1 then (False, c1)
         else
           let (ok2, c2) =
                 (if m_Status c1 = Empty \<and> m_Address c1 \<noteq> address
                  then Read_buf drv 0 (m_Address c1) (unat address mod PAGE_SIZE) c1
                  else (True, c1))
           in if \<not> ok2 then (False, c2)
              else
                let restPageSize = PAGE_SIZE - unat address mod PAGE_SIZE;
                    pageDataLen = min restPageSize len;
                    c3 = c2\<lparr>m_Buffer :=
                            store_at (m_Buffer c2) (unat address mod PAGE_SIZE) data pageDataLen\<rparr>;
                    (ok4, c4) =
                      (if m_Status c3 = Empty \<and> restPageSize > pageDataLen
                       then Read_buf drv (unat address mod PAGE_SIZE + pageDataLen)
                              (m_Address c3 + of_nat (unat address mod PAGE_SIZE)
                                 + of_nat pageDataLen)
                              (restPageSize - pageDataLen) c3
                       else (True, c3))
                in if \<not> ok4 then (False, c4)
                   else (True, c4\<lparr>m_Status := Dirty\<rparr>))"

text \<open>
  \<^verbatim>\<open>SetData\<close> is a \<^verbatim>\<open>do ... while(len > 0)\<close> loop: the body runs once before the
  first test. \<^verbatim>\<open>address % PAGE_SIZE\<close> divides by zero when \<open>PAGE_SIZE = 0\<close>, which C++
  leaves undefined; the model reports failure there and touches nothing.
\<close>

function SetData ::
  "nat \<Rightarrow> ('a::len word, 'd) driver \<Rightarrow> PreFlushCallbackStruct option \<Rightarrow> byte list \<Rightarrow> 'a word
     \<Rightarrow> nat \<Rightarrow> ('a word, 'd) PageCacheClass \<Rightarrow> bool \<times> ('a word, 'd) PageCacheClass" where
  "SetData PAGE_SIZE drv callback data address len c =
     (if PAGE_SIZE = 0 then (False, c)
      else if unat address mod PAGE_SIZE = 0 \<and> len \<ge> PAGE_SIZE then
        (let (ok, c1) = do_Write drv (take PAGE_SIZE data) address PAGE_SIZE c
         in if \<not> ok then (False, c1)
            else if 0 < len - PAGE_SIZE
              then SetData PAGE_SIZE drv callback (drop PAGE_SIZE data)
                     (address + of_nat PAGE_SIZE) (len - PAGE_SIZE) c1
              else (True, c1))
      else
        (let (ok, c5) = SetData_unaligned PAGE_SIZE drv callback data address len c;
             pageDataLen = min (PAGE_SIZE - unat address mod PAGE_SIZE) len
         in if \<not> ok then (False, c5)
            else if 0 < len - pageDataLen
              then SetData PAGE_SIZE drv callback (drop pageDataLen data)
                     (address + of_nat pageDataLen) (len - pageDataLen) c5
              else (True, c5)))"
  by pat_completeness auto
termination
  by (relation "measure (\<lambda>(PAGE_SIZE, drv, callback, data, address, len, c). len)")
     (auto simp: min_def split: if_splits)

text \<open>
  One pass of the body of \<^verbatim>\<open>GetData\<close>'s loop: the segment of the request that lies in
  the page of \<open>address\<close> is copied from the buffer when that page is resident and read
  from the backing medium otherwise.
\<close>

definition GetData_segment ::
  "nat \<Rightarrow> ('a::len word, 'd) driver \<Rightarrow> 'a word \<Rightarrow> nat \<Rightarrow> ('a word, 'd) PageCacheClass
     \<Rightarrow> byte list option \<times> ('a word, 'd) PageCacheClass" where
  "GetData_segment PAGE_SIZE drv address len c =
     (let restPageSize = PAGE_SIZE - unat address mod PAGE_SIZE;
          pageDataLen = min restPageSize len
      in if isInCache PAGE_SIZE c address
         then (Some (take pageDataLen (drop (unat address mod PAGE_SIZE) (m_Buffer c))), c)
         else do_Read drv address pageDataLen c)"

text \<open>
  \<^verbatim>\<open>GetData\<close>, again a \<^verbatim>\<open>do ... while(len > 0)\<close> loop. The second component of the
  result is what has been copied to the caller's buffer \<^verbatim>\<open>data\<close> so far.
\<close>

function GetData ::
  "nat \<Rightarrow> ('a::len word, 'd) driver \<Rightarrow> 'a word \<Rightarrow> nat \<Rightarrow> ('a word, 'd) PageCacheClass
     \<Rightarrow> bool \<times> byte list \<times> ('a word, 'd) PageCacheClass" where
  "GetData PAGE_SIZE drv address len c =
     (if PAGE_SIZE = 0 then (False, [], c)
      else
        let (r, c1) = GetData_segment PAGE_SIZE drv address len c;
            pageDataLen = min (PAGE_SIZE - unat address mod PAGE_SIZE) len
        in case r of
             None \<Rightarrow> (False, [], c1)
           | Some seg \<Rightarrow>
               if 0 < len - pageDataLen
               then (let (ok, out, c2) =
                           GetData PAGE_SIZE drv (address + of_nat pageDataLen)
                             (len - pageDataLen) c1
                     in (ok, seg @ out, c2))
               else (True, seg, c1))"
  by pat_completeness auto
termination
  by (relation "measure (\<lambda>(PAGE_SIZE, drv, address, len, c). len)")
     (auto simp: min_def split: if_splits)

text \<open>Events that are reads: the only ones \<^verbatim>\<open>GetData\<close> may add.\<close>

fun is_read :: "'w event \<Rightarrow> bool" where
  "is_read (EvRead a n) = True"
| "is_read (EvWrite b a n) = False"
| "is_read (EvCallback f b a n u) = False"

subsection \<open>Sequences of calls\<close>

text \<open>
  A client of the class calls its public operations one after another. A request names
  the operation and its arguments; \<open>serve\<close> performs one request and returns the
  \<^verbatim>\<open>bool\<close> result (\<^verbatim>\<open>Clear\<close> is \<^verbatim>\<open>void\<close> and counts as \<open>True\<close>) together with the bytes
  handed back to the caller; \<open>serve_all\<close> performs a list of requests in order.
\<close>

datatype 'w request =
    ReqSetData "PreFlushCallbackStruct option" "byte list" 'w nat
  | ReqGetData 'w nat
  | ReqFlush "PreFlushCallbackStruct option"
  | ReqClear

fun serve ::
  "nat \<Rightarrow> ('a::len word, 'd) driver \<Rightarrow> 'a word request \<Rightarrow> ('a word, 'd) PageCacheClass
     \<Rightarrow> (bool \<times> byte list) \<times> ('a word, 'd) PageCacheClass" where
  "serve PAGE_SIZE drv (ReqSetData callback data address len) c =
     (let (ok, c') = SetData PAGE_SIZE drv callback data address len c in ((ok, []), c'))"
| "serve PAGE_SIZE drv (ReqGetData address len) c =
     (let (ok, out, c') = GetData PAGE_SIZE drv address len c in ((ok, out), c'))"
| "serve PAGE_SIZE drv (ReqFlush callback) c =
     (let (ok, c') = Flush PAGE_SIZE drv callback c in ((ok, []), c'))"
| "serve PAGE_SIZE drv ReqClear c = ((True, []), Clear c)"

fun serve_all ::
  "nat \<Rightarrow> ('a::len word, 'd) driver \<Rightarrow> 'a word request list \<Rightarrow> ('a word, 'd) PageCacheClass
     \<Rightarrow> (bool \<times> byte list) list \<times> ('a word, 'd) PageCacheClass" where
  "serve_all PAGE_SIZE drv [] c = ([], c)"
| "serve_all PAGE_SIZE drv (r # rs) c =
     (let (res, c1) = serve PAGE_SIZE drv r c;
          (ress, c2) = serve_all PAGE_SIZE drv rs c1
      in (res # ress, c2))"

text \<open>
  Two objects that agree in everything except, while the slot is \<open>Empty\<close>, the contents of
  the buffer.
\<close>

definition same_but_buffer ::
  "('a::len word, 'd) PageCacheClass \<Rightarrow> ('a word, 'd) PageCacheClass \<Rightarrow> bool" where
  "same_but_buffer c c' \<longleftrightarrow>
     m_Address c' = m_Address c \<and> m_Status c' = m_Status c \<and>
     backing c' = backing c \<and> trace c' = trace c \<and>
     length (m_Buffer c') = length (m_Buffer c) \<and>
     (m_Status c \<noteq> Empty \<longrightarrow> m_Buffer c' = m_Buffer c)"

text \<open>Two buffers of one length that hold the same bytes at the indices in \<open>S\<close>.\<close>

definition agree_on :: "nat set \<Rightarrow> byte list \<Rightarrow> byte list \<Rightarrow> bool" where
  "agree_on S b b' \<longleftrightarrow> length b' = length b \<and> (\<forall>i < length b. i \<in> S \<longrightarrow> b' ! i = b ! i)"

subsection \<open>A backing medium that behaves as memory\<close>

text \<open>
  The derived class is not part of the library. Where a property depends on what the
  medium returns, it is stated for a medium that is a byte-addressed memory: \<open>Read\<close>
  returns the cells at \<open>address, address + 1, ...\<close> and \<open>Write\<close> stores \<open>len\<close>
  bytes there (addresses wrap around as \<open>ADDRESS_TYPE\<close> does). Either may refuse a
  request, and then changes nothing.
\<close>

record 'w flash =
  cells :: "'w \<Rightarrow> byte"
  read_fails :: "'w \<Rightarrow> nat \<Rightarrow> bool"
  write_fails :: "'w \<Rightarrow> nat \<Rightarrow> bool"

definition flash_Read ::
  "'a::len word flash \<Rightarrow> 'a word \<Rightarrow> nat \<Rightarrow> byte list option \<times> 'a word flash" where
  "flash_Read f address len =
     (if read_fails f address len then (None, f)
      else (Some (map (\<lambda>i. cells f (address + of_nat i)) [0..<len]), f))"

definition flash_Write ::
  "'a::len word flash \<Rightarrow> byte list \<Rightarrow> 'a word \<Rightarrow> nat \<Rightarrow> bool \<times> 'a word flash" where
  "flash_Write f buffer address len =
     (if write_fails f address len then (False, f)
      else (True, f\<lparr>cells := (\<lambda>x. if unat (x - address) < len
                                   then buffer ! unat (x - address) else cells f x)\<rparr>))"

definition flash_driver :: "('a::len word, 'a word flash) driver" where
  "flash_driver = \<lparr>Write = flash_Write, Read = flash_Read\<rparr>"

text \<open>
  What a one-byte read through the cache at address \<open>x\<close> yields: the buffered byte when
  the page of \<open>x\<close> is resident, the cell of the medium otherwise.
\<close>

definition cache_view ::
  "nat \<Rightarrow> ('a::len word, 'a word flash) PageCacheClass \<Rightarrow> 'a word \<Rightarrow> byte" where
  "cache_view PAGE_SIZE c x =
     (if isInCache PAGE_SIZE c x then m_Buffer c ! (unat x mod PAGE_SIZE)
      else cells (backing c) x)"

text \<open>
  The states the public operations produce from a constructed object: the buffer has
  \<open>PAGE_SIZE\<close> bytes (it is \<^verbatim>\<open>char m_Buffer[PAGE_SIZE]\<close>), the status is \<open>Empty\<close> or
  \<open>Dirty\<close> (nothing ever assigns \<open>HasData\<close>), and the resident address of a \<open>Dirty\<close> slot
  is the page-aligned one \<^verbatim>\<open>setAddress\<close> stored.
\<close>

definition cache_ok :: "nat \<Rightarrow> ('a::len word, 'd) PageCacheClass \<Rightarrow> bool" where
  "cache_ok PAGE_SIZE c \<longleftrightarrow>
     length (m_Buffer c) = PAGE_SIZE \<and> m_Status c \<noteq> HasData \<and>
     (m_Status c = Dirty \<longrightarrow>
        m_Address c = m_Address c AND NOT (of_nat PAGE_SIZE - 1))"

text \<open>
  The page that is resident when \<^verbatim>\<open>SetData\<close> is called lies wholly inside the request
  \<open>[address, address + len)\<close>.
\<close>

definition resident_covered ::
  "nat \<Rightarrow> ('a::len word, 'd) PageCacheClass \<Rightarrow> 'a word \<Rightarrow> nat \<Rightarrow> bool" where
  "resident_covered PAGE_SIZE c address len \<longleftrightarrow>
     m_Status c \<noteq> Empty \<and> unat address \<le> unat (m_Address c) \<and>
     unat (m_Address c) + PAGE_SIZE \<le> unat address + len"

text \<open>
  The byte at \<open>x\<close> lies in a page that \<^verbatim>\<open>SetData(data, address, len)\<close> writes around
  the buffer while the buffer holds that page: the request starts on a page boundary, the
  page of \<open>x\<close> is the resident one, and the request runs from \<open>x\<close> or before to the end
  of that page or beyond, so that the aligned full-page branch handles the page.
\<close>

definition written_around ::
  "nat \<Rightarrow> ('a::len word, 'd) PageCacheClass \<Rightarrow> 'a word \<Rightarrow> nat \<Rightarrow> 'a word \<Rightarrow> bool" where
  "written_around PAGE_SIZE c address len x \<longleftrightarrow>
     unat address mod PAGE_SIZE = 0 \<and> isInCache PAGE_SIZE c x \<and>
     unat address \<le> unat x \<and>
     unat x - unat x mod PAGE_SIZE + PAGE_SIZE \<le> unat address + len"

subsection \<open>A small instance\<close>

text \<open>
  \<^verbatim>\<open>PageCacheClass<uint32_t, 4>\<close> over a memory whose cell at address \<open>x\<close> holds the low
  byte of \<open>x\<close>, freshly constructed (\<^verbatim>\<open>m_Status = StatusEnum::Empty\<close>), and the same with
  a medium that refuses every write.
\<close>

definition ex_flash :: "32 word flash" where
  "ex_flash = \<lparr>cells = (\<lambda>x. ucast x), read_fails = (\<lambda>a n. False),
                write_fails = (\<lambda>a n. False)\<rparr>"

definition ex_cache :: "(32 word, 32 word flash) PageCacheClass" where
  "ex_cache = \<lparr>m_Address = 0, m_Status = Empty, m_Buffer = [0, 0, 0, 0],
                backing = ex_flash, trace = []\<rparr>"

definition ex_dirty :: "(32 word, 32 word flash) PageCacheClass" where
  "ex_dirty = \<lparr>m_Address = 8, m_Status = Dirty, m_Buffer = [1, 2, 3, 4],
                backing = ex_flash, trace = []\<rparr>"

definition ex_dirty_ro :: "(32 word, 32 word flash) PageCacheClass" where
  "ex_dirty_ro = ex_dirty\<lparr>backing := ex_flash\<lparr>write_fails := (\<lambda>a n. True)\<rparr>\<rparr>"

text \<open>
  \<^verbatim>\<open>PageCacheClass<uint64_t, 4>\<close> over a memory of the same kind, with the page at
  \<open>0x100000008\<close> resident and \<open>Dirty\<close>.
\<close>

definition ex_flash64 :: "64 word flash" where
  "ex_flash64 = \<lparr>cells = (\<lambda>x. ucast x), read_fails = (\<lambda>a n. False),
                  write_fails = (\<lambda>a n. False)\<rparr>"

definition ex_dirty64 :: "(64 word, 64 word flash) PageCacheClass" where
  "ex_dirty64 = \<lparr>m_Address = 0x100000008, m_Status = Dirty, m_Buffer = [1, 2, 3, 4],
                  backing = ex_flash64, trace = []\<rparr>"

text \<open>
  \<^verbatim>\<open>PageCacheClass<uint8_t, 4>\<close> over a memory whose cell at address \<open>x\<close> holds \<open>x\<close>,
  with page 8 resident and \<open>Dirty\<close>.
\<close>

definition ex_flash8 :: "8 word flash" where
  "ex_flash8 = \<lparr>cells = (\<lambda>x. x), read_fails = (\<lambda>a n. False),
                 write_fails = (\<lambda>a n. False)\<rparr>"

definition ex_dirty8 :: "(8 word, 8 word flash) PageCacheClass" where
  "ex_dirty8 = \<lparr>m_Address = 8, m_Status = Dirty, m_Buffer = [1, 2, 3, 4],
                 backing = ex_flash8, trace = []\<rparr>"

text \<open>
  The freshly constructed cache after \<^verbatim>\<open>SetData\<close> of the single byte 1 at address 8: the
  slot is \<open>Dirty\<close>, page 8 is resident and its buffer holds \<open>1, 9, 10, 11\<close>; the medium
  still holds 8 at address 8.
\<close>

definition ex_one_byte :: "(32 word, 32 word flash) PageCacheClass" where
  "ex_one_byte = snd (SetData 4 flash_driver None [1] 8 1 ex_cache)"

text \<open>A write into the page that was resident, a flush, and a read of that page.\<close>

definition ex_requests :: "32 word request list" where
  "ex_requests = [ReqSetData None [7] 10 1, ReqFlush None, ReqGetData 8 4]"

declare SetData.simps [simp del] GetData.simps [simp del]

section \<open>Persistent storage (Libs/PersistentStorage.hpp)\<close>

text \<open>
  \<^verbatim>\<open>struct UUID { uint8_t Bytes[16]; }\<close>: sixteen bytes, so \<^verbatim>\<open>sizeof(UUID)\<close> is 16.
\<close>

type_synonym UUID = "byte list"

definition StorageUUID :: UUID where
  "StorageUUID = [0xB0, 0x24, 0xF2, 0xDC, 0x72, 0xEA, 0x11, 0xE8,
                  0x85, 0x8E, 0x2C, 0xFD, 0xA1, 0xE1, 0xCE, 0xF5]"

definition PageStorageUUID :: UUID where
  "PageStorageUUID = [0xD2, 0x3C, 0x3B, 0x7A, 0x75, 0xF9, 0x11, 0xE8,
                      0x81, 0x90, 0x2C, 0xFD, 0xA1, 0xE1, 0xCE, 0xF5]"

text \<open>
  A scalar read from the device arrives as the bytes of its object representation. The
  library targets ARM Cortex-M, which is little-endian: the first byte is the least
  significant one.
\<close>

fun le_word :: "byte list \<Rightarrow> 'a::len word" where
  "le_word [] = 0"
| "le_word (b # bs) = ucast b OR push_bit 8 (le_word bs)"

text \<open>The calls a validator makes on the device, in order.\<close>

datatype ('w, 'n) access =
    AccCompare "byte list" 'w 'n
  | AccRead 'w 'n
  | AccCRC 'w 'n

subsection \<open>StorageReaderClass\<close>

text \<open>
  \<^verbatim>\<open>template <typename ADDRESS_TYPE, typename CRC_TYPE> class StorageReaderClass\<close>, with
  \<open>ADDRESS_TYPE\<close> as \<open>'a word\<close> and \<open>CRC_TYPE\<close> as \<open>'c word\<close>. Its three pure virtual
  functions are \<^verbatim>\<open>const\<close>: they are functions of their arguments. \<^verbatim>\<open>Read\<close> is named
  \<open>ReadStorage\<close> here, and the member \<^verbatim>\<open>m_Address\<close> is \<open>m_Address_reader\<close>, because the
  page cache has the same names.
\<close>

datatype StorageCheckEnum = Ok | NoStorage | AnotherStorage | DeviceError | StorageError

record ('w, 'c) StorageDevice =
  Compare :: "byte list \<Rightarrow> 'w \<Rightarrow> nat \<Rightarrow> bool"
  CalculateCRC :: "'w \<Rightarrow> nat \<Rightarrow> 'c"
  ReadStorage :: "'w \<Rightarrow> nat \<Rightarrow> byte list option"

record 'w StorageReaderClass =
  m_Address_reader :: 'w

text \<open>
  \<^verbatim>\<open>StorageHeaderStruct\<close> is packed: \<^verbatim>\<open>Uuid\<close> at 0, \<^verbatim>\<open>DataUuid\<close> at 16, \<^verbatim>\<open>Length\<close> at 32,
  \<^verbatim>\<open>StorageCrc\<close> right after it. The field offsets are the
  \<^verbatim>\<open>&(((StorageHeaderStruct*)0)->Field)\<close> expressions of the source.
\<close>

definition offset_DataUuid :: nat where
  "offset_DataUuid = 16"

definition offset_Length :: nat where
  "offset_Length = 32"

definition offset_StorageCrc :: "'a::len itself \<Rightarrow> nat" where
  "offset_StorageCrc a = 32 + LENGTH('a) div 8"

definition sizeof_StorageHeaderStruct :: "'a::len itself \<Rightarrow> 'c::len itself \<Rightarrow> nat" where
  "sizeof_StorageHeaderStruct a c = 32 + LENGTH('a) div 8 + LENGTH('c) div 8"

definition getLength ::
  "('a::len word, 'c::len word) StorageDevice \<Rightarrow> 'a word
     \<Rightarrow> 'a word option \<times> ('a word, nat) access list" where
  "getLength dev address =
     (map_option le_word (ReadStorage dev (address + of_nat offset_Length) (LENGTH('a) div 8)),
      [AccRead (address + of_nat offset_Length) (LENGTH('a) div 8)])"

definition getCrc ::
  "('a::len word, 'c::len word) StorageDevice \<Rightarrow> 'a word
     \<Rightarrow> 'c word option \<times> ('a word, nat) access list" where
  "getCrc dev address =
     (map_option le_word
        (ReadStorage dev (address + of_nat (offset_StorageCrc TYPE('a))) (LENGTH('c) div 8)),
      [AccRead (address + of_nat (offset_StorageCrc TYPE('a))) (LENGTH('c) div 8)])"

text \<open>
  \<^verbatim>\<open>IsStorageCorrect\<close> returns the outcome, the object after the call, and the device
  calls made. \<^verbatim>\<open>CalculateCRC\<close> takes an \<^verbatim>\<open>unsigned int\<close> length: the \<open>ADDRESS_TYPE\<close> value
  read from the header is converted to 32 bits.
\<close>

definition IsStorageCorrect ::
  "('a::len word, 'c::len word) StorageDevice \<Rightarrow> 'a word \<Rightarrow> UUID \<Rightarrow> 'a word StorageReaderClass
     \<Rightarrow> StorageCheckEnum \<times> 'a word StorageReaderClass \<times> ('a word, nat) access list" where
  "IsStorageCorrect dev address uuid obj =
     (let a1 = [AccCompare StorageUUID address 16]
      in if \<not> Compare dev StorageUUID address 16 then (NoStorage, obj, a1)
         else
           let a2 = a1 @ [AccCompare uuid (address + of_nat offset_DataUuid) 16]
           in if \<not> Compare dev uuid (address + of_nat offset_DataUuid) 16
              then (AnotherStorage, obj, a2)
              else
                let (rl, al) = getLength dev address
                in case rl of
                     None \<Rightarrow> (DeviceError, obj, a2 @ al)
                   | Some len \<Rightarrow>
                       (let (rc, ac) = getCrc dev address
                        in (case rc of
                              None \<Rightarrow> (DeviceError, obj, a2 @ al @ ac)
                            | Some crc \<Rightarrow>
                                (let payload = address +
                                       of_nat (sizeof_StorageHeaderStruct TYPE('a) TYPE('c));
                                     n = unat (ucast len :: 32 word);
                                     a5 = a2 @ al @ ac @ [AccCRC payload n]
                                 in if crc = CalculateCRC dev payload n
                                    then (Ok, obj\<lparr>m_Address_reader := address\<rparr>, a5)
                                    else (StorageError, obj, a5)))))"

text \<open>
  \<^verbatim>\<open>GetData(void *data, unsigned int len, unsigned int offset)\<close>. \<^verbatim>\<open>len + offset\<close> is an
  \<^verbatim>\<open>unsigned int\<close> sum and wraps at \<open>2 ^ 32\<close>. The result is \<open>None\<close> for \<^verbatim>\<open>false\<close> and
  otherwise the bytes \<^verbatim>\<open>Read\<close> put into \<^verbatim>\<open>data\<close>.
\<close>

definition GetData_reader ::
  "('a::len word, 'c::len word) StorageDevice \<Rightarrow> 'a word StorageReaderClass
     \<Rightarrow> 32 word \<Rightarrow> 32 word \<Rightarrow> byte list option" where
  "GetData_reader dev obj len offset =
     (case fst (getLength dev (m_Address_reader obj)) of
        None \<Rightarrow> None
      | Some dataLength \<Rightarrow>
          if unat (len + offset) > unat dataLength then None
          else ReadStorage dev (m_Address_reader obj) (unat (len + offset)))"

text \<open>
  Modelled from the spec's words, for comparison with \<open>GetData_reader\<close>:
  ``fails if \<open>offset + len\<close> exceeds the stored \<open>Length\<close>; otherwise copies from the payload
  region'', the payload being the bytes that follow the header.
\<close>

definition GetData_reader_spec ::
  "('a::len word, 'c::len word) StorageDevice \<Rightarrow> 'a word StorageReaderClass
     \<Rightarrow> 32 word \<Rightarrow> 32 word \<Rightarrow> byte list option" where
  "GetData_reader_spec dev obj len offset =
     (case fst (getLength dev (m_Address_reader obj)) of
        None \<Rightarrow> None
      | Some dataLength \<Rightarrow>
          if unat offset + unat len > unat dataLength then None
          else ReadStorage dev
                 (m_Address_reader obj
                    + of_nat (sizeof_StorageHeaderStruct TYPE('a) TYPE('c)) + ucast offset)
                 (unat len))"

subsection \<open>PageStorageClass\<close>

text \<open>
  \<^verbatim>\<open>template <typename ADDRESS_TYPE, typename LENGTH_TYPE, typename CRC_TYPE>
  class PageStorageClass\<close>, with \<open>LENGTH_TYPE\<close> as \<open>'l word\<close>. The outcomes of
  \<^verbatim>\<open>PageCheckResultEnum\<close> carry the prefix \<open>Page\<close> to keep them apart from those of
  \<^verbatim>\<open>StorageCheckEnum\<close>; the virtual functions \<^verbatim>\<open>Compare\<close> and \<^verbatim>\<open>Read\<close> are \<open>ComparePage\<close>
  and \<open>ReadPage\<close>, the member \<^verbatim>\<open>m_Address\<close> is \<open>m_Address_page\<close>.
\<close>

datatype PageCheckResultEnum =
  PageOk | PageNoStorage | PageAnotherStorage | PageDeviceError | PageError

record CheckOptions =
  DontCheckCrc :: bool
  DontCheckMetrics :: bool

record ('l, 'c) PageHeaderMetricsStruct =
  TotalLength :: 'l
  PageOffset :: 'l
  PageLength :: 'l
  PageCrc :: 'c

record ('w, 'l, 'c) PageDevice =
  ComparePage :: "byte list \<Rightarrow> 'w \<Rightarrow> 'l \<Rightarrow> bool"
  ReadPage :: "'w \<Rightarrow> 'l \<Rightarrow> byte list option"
  CalculatePageCRC :: "'w \<Rightarrow> 'l \<Rightarrow> 'c"

record 'w PageStorageClass =
  m_Uuid :: UUID
  m_Address_page :: 'w

text \<open>
  \<^verbatim>\<open>PageHeaderStruct\<close> is packed: \<^verbatim>\<open>Uuid\<close> at 0, \<^verbatim>\<open>DataUuid\<close> at 16, then \<^verbatim>\<open>TotalLength\<close>,
  \<^verbatim>\<open>PageOffset\<close>, \<^verbatim>\<open>PageLength\<close> of \<^verbatim>\<open>sizeof(LENGTH_TYPE)\<close> bytes each, then \<^verbatim>\<open>PageCrc\<close>.
\<close>

definition sizeof_LENGTH_TYPE :: "'l::len itself \<Rightarrow> nat" where
  "sizeof_LENGTH_TYPE l = LENGTH('l) div 8"

definition sizeof_PageHeaderStruct :: "'l::len itself \<Rightarrow> 'c::len itself \<Rightarrow> nat" where
  "sizeof_PageHeaderStruct l c = 32 + 3 * (LENGTH('l) div 8) + LENGTH('c) div 8"

text \<open>
  \<^verbatim>\<open>getMetrics(metrics, address)\<close>: four reads, in the order of the fields; the first that
  fails ends it. The second component lists the reads made.
\<close>

definition getMetrics ::
  "('a::len word, 'l::len word, 'c::len word) PageDevice \<Rightarrow> 'a word
     \<Rightarrow> ('l word, 'c word) PageHeaderMetricsStruct option \<times> ('a word, 'l word) access list" where
  "getMetrics dev address =
     (let sl = sizeof_LENGTH_TYPE TYPE('l);
          a_total = address + of_nat 32;
          a_offset = address + of_nat (32 + sl);
          a_length = address + of_nat (32 + 2 * sl);
          a_crc = address + of_nat (32 + 3 * sl);
          r1 = [AccRead a_total (of_nat sl)]
      in case ReadPage dev a_total (of_nat sl) of
           None \<Rightarrow> (None, r1)
         | Some b_total \<Rightarrow>
             (let r2 = r1 @ [AccRead a_offset (of_nat sl)]
              in (case ReadPage dev a_offset (of_nat sl) of
                    None \<Rightarrow> (None, r2)
                  | Some b_offset \<Rightarrow>
                      (let r3 = r2 @ [AccRead a_length (of_nat sl)]
                       in (case ReadPage dev a_length (of_nat sl) of
                             None \<Rightarrow> (None, r3)
                           | Some b_length \<Rightarrow>
                               (let r4 = r3 @ [AccRead a_crc (of_nat (LENGTH('c) div 8))]
                                in (case ReadPage dev a_crc (of_nat (LENGTH('c) div 8)) of
                                      None \<Rightarrow> (None, r4)
                                    | Some b_crc \<Rightarrow>
                                        (Some \<lparr>TotalLength = le_word b_total,
                                               PageOffset = le_word b_offset,
                                               PageLength = le_word b_length,
                                               PageCrc = le_word b_crc\<rparr>, r4))))))))"

text \<open>
  \<^verbatim>\<open>getMaxPageLength\<close>: \<^verbatim>\<open>pageLen - sizeof(PageHeaderStruct)\<close>, returned as \<open>LENGTH_TYPE\<close>;
  the subtraction wraps when \<open>pageLen\<close> is smaller than the header.
\<close>

definition getMaxPageLength :: "'c::len itself \<Rightarrow> 'l::len word \<Rightarrow> 'l word" where
  "getMaxPageLength c pageLen = pageLen - of_nat (sizeof_PageHeaderStruct TYPE('l) c)"

definition isPageCorrect ::
  "('a::len word, 'l::len word, 'c::len word) PageDevice \<Rightarrow> 'a word \<Rightarrow> 'l word \<Rightarrow> CheckOptions
     \<Rightarrow> 'a word PageStorageClass
     \<Rightarrow> PageCheckResultEnum \<times> 'a word PageStorageClass \<times> ('a word, 'l word) access list" where
  "isPageCorrect dev address pageLen options obj =
     (let a1 = [AccCompare PageStorageUUID address 16]
      in if \<not> ComparePage dev PageStorageUUID address 16 then (PageNoStorage, obj, a1)
         else
           let a2 = a1 @ [AccCompare (m_Uuid obj) (address + of_nat offset_DataUuid) 16]
           in if \<not> ComparePage dev (m_Uuid obj) (address + of_nat offset_DataUuid) 16
              then (PageAnotherStorage, obj, a2)
              else if \<not> DontCheckMetrics options then
                (let (rm, am) = getMetrics dev address
                 in case rm of
                      None \<Rightarrow> (PageDeviceError, obj, a2 @ am)
                    | Some metrics \<Rightarrow>
                        if PageLength metrics > getMaxPageLength TYPE('c) pageLen
                           \<or> PageLength metrics > TotalLength metrics
                           \<or> PageOffset metrics > TotalLength metrics
                        then (PageError, obj, a2 @ am)
                        else if \<not> DontCheckCrc options
                        then
                          (let payload = address +
                                 of_nat (sizeof_PageHeaderStruct TYPE('l) TYPE('c));
                               a4 = a2 @ am @ [AccCRC payload (PageLength metrics)]
                           in if PageCrc metrics \<noteq>
                                   CalculatePageCRC dev payload (PageLength metrics)
                              then (PageError, obj, a4)
                              else (PageOk, obj\<lparr>m_Address_page := address\<rparr>, a4))
                        else (PageOk, obj\<lparr>m_Address_page := address\<rparr>, a2 @ am))
              else (PageOk, obj\<lparr>m_Address_page := address\<rparr>, a2))"

subsection \<open>A device that is a memory image\<close>

text \<open>
  For running the validators: the device holds a byte image starting at address 0,
  refuses reads that leave it, and takes the sum of the bytes as its checksum. The
  single-region instance has a 32-bit \<open>ADDRESS_TYPE\<close> and a 16-bit \<open>CRC_TYPE\<close>, so its header
  is 38 bytes; the page instance has a 16-bit \<open>LENGTH_TYPE\<close> as well, and a header of
  40 bytes.
\<close>

definition image_slice :: "byte list \<Rightarrow> nat \<Rightarrow> nat \<Rightarrow> byte list option" where
  "image_slice img a n = (if a + n \<le> length img then Some (take n (drop a img)) else None)"

definition image_sum :: "byte list \<Rightarrow> nat \<Rightarrow> nat \<Rightarrow> nat" where
  "image_sum img a n = sum_list (map unat (take n (drop a img)))"

definition image_device :: "byte list \<Rightarrow> (32 word, 16 word) StorageDevice" where
  "image_device img =
     \<lparr>Compare = (\<lambda>pattern a n. image_slice img (unat a) n = Some (take n pattern)),
      CalculateCRC = (\<lambda>a n. of_nat (image_sum img (unat a) n)),
      ReadStorage = (\<lambda>a n. image_slice img (unat a) n)\<rparr>"

definition image_page_device :: "byte list \<Rightarrow> (32 word, 16 word, 16 word) PageDevice" where
  "image_page_device img =
     \<lparr>ComparePage = (\<lambda>pattern a n. image_slice img (unat a) (unat n) = Some (take (unat n) pattern)),
      ReadPage = (\<lambda>a n. image_slice img (unat a) (unat n)),
      CalculatePageCRC = (\<lambda>a n. of_nat (image_sum img (unat a) (unat n)))\<rparr>"

definition ex_uuid :: UUID where
  "ex_uuid = [1, 2, 3, 4, 5, 6, 7, 8, 9, 10, 11, 12, 13, 14, 15, 16]"

definition ex_other_uuid :: UUID where
  "ex_other_uuid = [16, 15, 14, 13, 12, 11, 10, 9, 8, 7, 6, 5, 4, 3, 2, 1]"

text \<open>A region with \<open>Length = 4\<close>, the checksum \<open>0xAA\<close> of its payload, and the payload.\<close>

definition ex_region :: "byte list" where
  "ex_region = StorageUUID @ ex_uuid @ [4, 0, 0, 0] @ [0xAA, 0] @ [0x11, 0x22, 0x33, 0x44]"

definition ex_region_bad_payload :: "byte list" where
  "ex_region_bad_payload =
     StorageUUID @ ex_uuid @ [4, 0, 0, 0] @ [0xAA, 0] @ [0x11, 0x22, 0x33, 0x45]"

definition ex_reader :: "32 word StorageReaderClass" where
  "ex_reader = \<lparr>m_Address_reader = 0\<rparr>"

definition ex_reader_elsewhere :: "32 word StorageReaderClass" where
  "ex_reader_elsewhere = \<lparr>m_Address_reader = 100\<rparr>"

text \<open>
  A page with \<open>TotalLength = 10\<close>, \<open>PageOffset = 0\<close>, \<open>PageLength = 4\<close>, the checksum of
  its payload, and the payload; the same with a wrong checksum; and one whose
  \<open>PageLength\<close> exceeds its \<open>TotalLength\<close>.
\<close>

definition ex_page :: "byte list" where
  "ex_page = PageStorageUUID @ ex_uuid @ [10, 0] @ [0, 0] @ [4, 0] @ [0xAA, 0]
               @ [0x11, 0x22, 0x33, 0x44]"

definition ex_page_bad_crc :: "byte list" where
  "ex_page_bad_crc = PageStorageUUID @ ex_uuid @ [10, 0] @ [0, 0] @ [4, 0] @ [0xAB, 0]
               @ [0x11, 0x22, 0x33, 0x44]"

definition ex_page_bad_metrics :: "byte list" where
  "ex_page_bad_metrics = PageStorageUUID @ ex_uuid @ [3, 0] @ [0, 0] @ [4, 0] @ [0xAA, 0]
               @ [0x11, 0x22, 0x33, 0x44]"

definition ex_page_obj :: "32 word PageStorageClass" where
  "ex_page_obj = \<lparr>m_Uuid = ex_uuid, m_Address_page = 100\<rparr>"

section \<open>Properties of the page cache\<close>

subsection \<open>Flush and Clear\<close>

lemma do_Write_frame:
  "do_Write drv buffer address len c = (ok, c') \<Longrightarrow>
     m_Address c' = m_Address c \<and> m_Status c' = m_Status c \<and> m_Buffer c' = m_Buffer c \<and>
     trace c' = trace c @ [EvWrite buffer address len] \<and>
     (ok, backing c') = Write drv (backing c) buffer address len"
  by (auto simp: do_Write_def split: prod.splits)

lemma do_Read_frame:
  "do_Read drv address len c = (r, c') \<Longrightarrow>
     m_Address c' = m_Address c \<and> m_Status c' = m_Status c \<and> m_Buffer c' = m_Buffer c \<and>
     trace c' = trace c @ [EvRead address len] \<and>
     (r, backing c') = Read drv (backing c) address len"
  by (auto simp: do_Read_def split: prod.splits)

text \<open>
  C6. When the slot is \<open>Dirty\<close> and the whole-page \<^verbatim>\<open>Write\<close> fails, \<^verbatim>\<open>Flush\<close> returns
  \<^verbatim>\<open>false\<close> and the slot is still \<open>Dirty\<close>, with the same resident address and the same
  buffer. When the slot is not \<open>Dirty\<close>, \<^verbatim>\<open>Flush\<close> returns \<^verbatim>\<open>true\<close> and the whole
  object, its backing medium and its event trace included, is unchanged: no write, no
  callback.
\<close>

theorem Flush_failure_keeps_dirty:
  "(m_Status c = Dirty \<and>
    \<not> fst (Write drv (backing c) (m_Buffer c) (m_Address c) PAGE_SIZE) \<longrightarrow>
      \<not> fst (Flush PAGE_SIZE drv callback c) \<and>
      m_Status (snd (Flush PAGE_SIZE drv callback c)) = Dirty \<and>
      m_Address (snd (Flush PAGE_SIZE drv callback c)) = m_Address c \<and>
      m_Buffer (snd (Flush PAGE_SIZE drv callback c)) = m_Buffer c) \<and>
   (m_Status c \<noteq> Dirty \<longrightarrow> Flush PAGE_SIZE drv callback c = (True, c))"
  by (auto simp: Flush_def do_Write_def Clear_def Let_def
           split: prod.splits option.splits)

theorem Flush_failure_keeps_dirty_witness:
  "(m_Status ex_dirty_ro = Dirty \<and>
    \<not> fst (Write flash_driver (backing ex_dirty_ro) (m_Buffer ex_dirty_ro)
             (m_Address ex_dirty_ro) 4) \<and>
    \<not> fst (Flush 4 flash_driver None ex_dirty_ro) \<and>
    m_Status (snd (Flush 4 flash_driver None ex_dirty_ro)) = Dirty \<and>
    m_Address (snd (Flush 4 flash_driver None ex_dirty_ro)) = 8 \<and>
    m_Buffer (snd (Flush 4 flash_driver None ex_dirty_ro)) = [1, 2, 3, 4]) \<and>
   (m_Status ex_cache \<noteq> Dirty \<and> Flush 4 flash_driver None ex_cache = (True, ex_cache))"
  using Flush_failure_keeps_dirty [of ex_dirty_ro flash_driver 4 None]
        Flush_failure_keeps_dirty [of ex_cache flash_driver 4 None]
  by (simp add: ex_dirty_ro_def ex_dirty_def ex_cache_def ex_flash_def flash_driver_def
        flash_Write_def)

text \<open>
  When and how often \<^verbatim>\<open>Flush\<close> calls the callback. With a callback supplied
  (\<^verbatim>\<open>callback != nullptr\<close> and \<^verbatim>\<open>callback->Callback != nullptr\<close>), a flush of a
  \<open>Dirty\<close> slot adds exactly two events: the callback, and after it the write of the
  whole page. On a slot that is not \<open>Dirty\<close> it adds none. \<^verbatim>\<open>setAddress\<close>, the only
  caller of \<^verbatim>\<open>Flush\<close> inside the class, flushes only a \<open>Dirty\<close> slot, with the same two
  events. The callback receives the resident address, cut to 32 bits, as its \<^verbatim>\<open>len\<close>
  and the page size as its \<^verbatim>\<open>address\<close>.
\<close>

lemma Flush_callback_events:
  "(m_Status c = Dirty \<longrightarrow>
      trace (snd (Flush PAGE_SIZE drv (Some \<lparr>Callback = Some f, arg = a\<rparr>) c)) =
        trace c @ [EvCallback f (m_Buffer c) (ucast (m_Address c)) (of_nat PAGE_SIZE) a,
                   EvWrite (m_Buffer c) (m_Address c) PAGE_SIZE]) \<and>
   (m_Status c \<noteq> Dirty \<longrightarrow>
      trace (snd (Flush PAGE_SIZE drv (Some \<lparr>Callback = Some f, arg = a\<rparr>) c)) = trace c) \<and>
   trace (snd (setAddress PAGE_SIZE drv address (Some \<lparr>Callback = Some f, arg = a\<rparr>) c)) =
     (if m_Status c = Dirty \<and> \<not> isInCache PAGE_SIZE c address
      then trace c @ [EvCallback f (m_Buffer c) (ucast (m_Address c)) (of_nat PAGE_SIZE) a,
                      EvWrite (m_Buffer c) (m_Address c) PAGE_SIZE]
      else trace c)"
  by (auto simp: Flush_def setAddress_def do_Write_def Clear_def Let_def split: prod.splits)

text \<open>
  C5. The callback is called once, only on a \<open>Dirty\<close> slot and before the write of the
  page, but it does not receive \<open>(buffer, address, pageSize, userArg)\<close>. The type
  \<^verbatim>\<open>PreFlushCallbackType\<close> declares and documents the parameters
  \<^verbatim>\<open>(buffer, len, address, arg)\<close>, the length before the address, and \<^verbatim>\<open>Flush\<close> passes
  the address before the length. In \<^verbatim>\<open>PageCacheClass<uint64_t, 4>\<close> with the page at
  \<open>0x100000008\<close> resident and \<open>Dirty\<close>, a flush with the callback 7 and the user
  argument 5 calls it with \<^verbatim>\<open>len\<close> 8, the resident address cut to 32 bits, and
  \<^verbatim>\<open>address\<close> 4, the page size; the page is then written at \<open>0x100000008\<close>. With a
  32-bit address type and page 8 resident the callback receives \<^verbatim>\<open>len\<close> 8 and
  \<^verbatim>\<open>address\<close> 4 as well.
\<close>

theorem Flush_callback_arguments:
  "trace (snd (Flush 4 flash_driver (Some \<lparr>Callback = Some 7, arg = 5\<rparr>) ex_dirty64)) =
     [EvCallback 7 [1, 2, 3, 4] 8 4 5, EvWrite [1, 2, 3, 4] 0x100000008 4] \<and>
   trace (snd (Flush 4 flash_driver (Some \<lparr>Callback = Some 7, arg = 5\<rparr>) ex_dirty)) =
     [EvCallback 7 [1, 2, 3, 4] 8 4 5, EvWrite [1, 2, 3, 4] 8 4]"
  using Flush_callback_events [of ex_dirty64 4 flash_driver 7 5 0]
        Flush_callback_events [of ex_dirty 4 flash_driver 7 5 0]
  by (simp add: ex_dirty64_def ex_dirty_def)

subsection \<open>The aligned full-page path of SetData\<close>

text \<open>
  C7. When the request starts on a page boundary and is at least one page long, the
  iteration of \<^verbatim>\<open>SetData\<close> that handles this page passes the first \<open>PAGE_SIZE\<close> bytes of
  the data to \<^verbatim>\<open>Write\<close> at that address and goes on (or stops, when the write fails or
  nothing is left) with an object whose status, resident address and buffer are the ones
  it started with; only the backing medium and the trace differ.
\<close>

theorem SetData_full_page_bypass:
  assumes "0 < PAGE_SIZE" and "unat address mod PAGE_SIZE = 0" and "PAGE_SIZE \<le> len"
  shows "let w = Write drv (backing c) (take PAGE_SIZE data) address PAGE_SIZE;
             c1 = c\<lparr>backing := snd w,
                    trace := trace c @ [EvWrite (take PAGE_SIZE data) address PAGE_SIZE]\<rparr>
         in m_Status c1 = m_Status c \<and> m_Address c1 = m_Address c \<and> m_Buffer c1 = m_Buffer c \<and>
            SetData PAGE_SIZE drv callback data address len c =
              (if \<not> fst w then (False, c1)
               else if 0 < len - PAGE_SIZE
                 then SetData PAGE_SIZE drv callback (drop PAGE_SIZE data)
                        (address + of_nat PAGE_SIZE) (len - PAGE_SIZE) c1
                 else (True, c1))"
  using assms
  by (subst SetData.simps) (simp add: do_Write_def Let_def split: prod.splits)

theorem SetData_full_page_bypass_witness:
  "0 < (4::nat) \<and> unat (8 :: 32 word) mod 4 = 0 \<and> (4::nat) \<le> 4 \<and>
   SetData 4 flash_driver None [9, 9, 9, 9] 8 4 ex_dirty =
     (True, ex_dirty\<lparr>backing := snd (flash_Write ex_flash [9, 9, 9, 9] 8 4),
                      trace := [EvWrite [9, 9, 9, 9] 8 4]\<rparr>)"
  using SetData_full_page_bypass [of 4 "8 :: 32 word" 4 flash_driver ex_dirty "[9, 9, 9, 9]" None]
  by (simp add: ex_dirty_def ex_flash_def flash_driver_def flash_Write_def Let_def)


subsection \<open>Page arithmetic for a page size that is a power of two\<close>

lemma nat_in_page:
  fixes a :: nat
  assumes "a < N" and "P dvd N" and "a mod P + i < P"
  shows "a + i < N"
proof -
  from assms(2) obtain q where N: "N = P * q" ..
  from assms(3) have P: "0 < P" by simp
  from assms(1) N have "a < q * P" by (simp add: mult.commute)
  then have "a div P < q" by (rule less_mult_imp_div_less)
  then have "Suc (a div P) \<le> q" by simp
  then have "P * Suc (a div P) \<le> P * q" by (rule mult_le_mono2)
  moreover have "a + i < P * Suc (a div P)"
  proof -
    have "a = P * (a div P) + a mod P" by simp
    then have "a + i = P * (a div P) + (a mod P + i)" by simp
    also have "\<dots> < P * (a div P) + P" using assms(3) by (simp only: add_less_cancel_left)
    finally show ?thesis by simp
  qed
  ultimately show ?thesis using N by simp
qed

lemma page_mask: "(of_nat (2 ^ k) :: 'a::len word) - 1 = mask k"
  by (simp add: mask_eq_exp_minus_1)

lemma unat_low: "unat ((x :: 'a::len word) AND mask k) = unat x mod 2 ^ k"
proof -
  have "x AND mask k = take_bit k x"
    by (simp only: take_bit_eq_mask)
  then have "unat (x AND mask k) = take_bit k (unat x)"
    by (simp only: unsigned_take_bit_eq)
  also have "\<dots> = unat x mod 2 ^ k"
    by (rule take_bit_eq_mod)
  finally show ?thesis .
qed

lemma split_page: "(x :: 'a::len word) AND NOT (mask k) = x - (x AND mask k)"
proof -
  have "x - (x AND mask k) = x AND NOT (x AND mask k)"
    by (rule disjunctive_diff_eq_and_not) (simp add: bit_eq_iff bit_simps)
  also have "\<dots> = x AND NOT (mask k)"
    by (rule bit_eqI) (auto simp: bit_simps)
  finally show ?thesis by simp
qed

lemma unat_page:
  "unat ((x :: 'a::len word) AND NOT (of_nat (2 ^ k) - 1)) = unat x - unat x mod 2 ^ k"
proof -
  have "x AND mask k \<le> x" by (rule word_and_le2)
  then show ?thesis
    by (simp only: page_mask split_page unat_sub unat_low)
qed

lemma unat_add_in_page:
  fixes x :: "'a::len word"
  assumes "k \<le> LENGTH('a)" and "unat x mod 2 ^ k + i < 2 ^ k"
  shows "unat (x + of_nat i) = unat x + i"
proof -
  have dv: "(2::nat) ^ k dvd 2 ^ LENGTH('a)"
    using assms(1) by (rule le_imp_power_dvd)
  have "unat x < 2 ^ LENGTH('a)" by simp
  then have lt: "unat x + i < 2 ^ LENGTH('a)"
    using dv assms(2) by (rule nat_in_page)
  then have "i < 2 ^ LENGTH('a)" by simp
  then have "unat (of_nat i :: 'a word) = i" by (simp add: unat_of_nat)
  with lt show ?thesis by (simp add: unat_add_lem [THEN iffD1])
qed

lemma offset_add_in_page:
  fixes x :: "'a::len word"
  assumes "k \<le> LENGTH('a)" and "unat x mod 2 ^ k + i < 2 ^ k"
  shows "unat (x + of_nat i) mod 2 ^ k = unat x mod 2 ^ k + i"
proof -
  have "(unat x + i) mod 2 ^ k = (unat x mod 2 ^ k + i) mod 2 ^ k"
    by (simp add: mod_add_left_eq)
  also have "\<dots> = unat x mod 2 ^ k + i" using assms(2) by simp
  finally show ?thesis by (simp add: unat_add_in_page [OF assms])
qed

lemma page_add_in_page:
  fixes x :: "'a::len word"
  assumes "k \<le> LENGTH('a)" and "unat x mod 2 ^ k + i < 2 ^ k"
  shows "(x + of_nat i) AND NOT (of_nat (2 ^ k) - 1) = x AND NOT (of_nat (2 ^ k) - 1)"
proof -
  have "unat (x + of_nat i) - unat (x + of_nat i) mod 2 ^ k =
        (unat x + i) - (unat x mod 2 ^ k + i)"
    using offset_add_in_page [OF assms] unat_add_in_page [OF assms] by presburger
  also have "\<dots> = unat x - unat x mod 2 ^ k" by simp
  finally have "unat ((x + of_nat i) AND NOT (of_nat (2 ^ k) - 1)) =
        unat (x AND NOT (of_nat (2 ^ k) - 1))"
    by (simp only: unat_page)
  then show ?thesis by (simp only: word_unat_eq_iff)
qed

subsection \<open>Unfolding the loops\<close>

lemma GetData_unfold:
  assumes "0 < PAGE_SIZE"
    and "GetData_segment PAGE_SIZE drv address len c = (r, c1)"
    and "n = min (PAGE_SIZE - unat address mod PAGE_SIZE) len"
  shows "GetData PAGE_SIZE drv address len c =
     (case r of
        None \<Rightarrow> (False, [], c1)
      | Some seg \<Rightarrow>
          if 0 < len - n
          then (case GetData PAGE_SIZE drv (address + of_nat n) (len - n) c1 of
                  (ok, out, c2) \<Rightarrow> (ok, seg @ out, c2))
          else (True, seg, c1))"
proof -
  from assms(1) have nz: "PAGE_SIZE \<noteq> 0" by simp
  show ?thesis
  proof (cases r)
    case None
    show ?thesis
      by (subst GetData.simps) (simp add: nz assms(2) None)
  next
    case (Some sg)
    show ?thesis
      by (subst GetData.simps) (simp add: nz assms(2) assms(3) Some Let_def)
  qed
qed

lemma SetData_unfold_aligned:
  assumes "0 < PAGE_SIZE" and "unat address mod PAGE_SIZE = 0" and "PAGE_SIZE \<le> len"
    and "do_Write drv (take PAGE_SIZE data) address PAGE_SIZE c = (ok, c1)"
  shows "SetData PAGE_SIZE drv callback data address len c =
     (if \<not> ok then (False, c1)
      else if 0 < len - PAGE_SIZE
        then SetData PAGE_SIZE drv callback (drop PAGE_SIZE data)
               (address + of_nat PAGE_SIZE) (len - PAGE_SIZE) c1
        else (True, c1))"
  using assms by (subst SetData.simps) simp

lemma SetData_unfold_unaligned:
  assumes "0 < PAGE_SIZE" and "\<not> (unat address mod PAGE_SIZE = 0 \<and> PAGE_SIZE \<le> len)"
    and "SetData_unaligned PAGE_SIZE drv callback data address len c = (ok, c5)"
    and "n = min (PAGE_SIZE - unat address mod PAGE_SIZE) len"
  shows "SetData PAGE_SIZE drv callback data address len c =
     (if \<not> ok then (False, c5)
      else if 0 < len - n
        then SetData PAGE_SIZE drv callback (drop n data) (address + of_nat n) (len - n) c5
        else (True, c5))"
proof -
  from assms(1) have nz: "PAGE_SIZE \<noteq> 0" by simp
  from assms(2) have na: "(unat address mod PAGE_SIZE = 0 \<and> PAGE_SIZE \<le> len) = False"
    by simp
  show ?thesis
    by (subst SetData.simps) (simp only: nz na if_False assms(3) assms(4) Let_def prod.case)
qed

subsection \<open>GetData leaves the cache alone\<close>

lemma GetData_segment_frame:
  "GetData_segment PAGE_SIZE drv address len c = (r, c1) \<Longrightarrow>
     m_Address c1 = m_Address c \<and> m_Status c1 = m_Status c \<and> m_Buffer c1 = m_Buffer c \<and>
     (\<exists>rs. trace c1 = trace c @ rs \<and> list_all is_read rs)"
  by (auto simp: GetData_segment_def Let_def split: if_splits dest!: do_Read_frame)

lemma GetData_frame:
  "GetData PAGE_SIZE drv address len c = (ok, out, c') \<Longrightarrow>
     m_Address c' = m_Address c \<and> m_Status c' = m_Status c \<and> m_Buffer c' = m_Buffer c \<and>
     (\<exists>rs. trace c' = trace c @ rs \<and> list_all is_read rs)"
proof (induction len arbitrary: address c ok out c' rule: less_induct)
  case (less len)
  show ?case
  proof (cases "PAGE_SIZE = 0")
    case True
    with less.prems show ?thesis by (simp add: GetData.simps)
  next
    case False
    define n where "n = min (PAGE_SIZE - unat address mod PAGE_SIZE) len"
    obtain r c1 where seg: "GetData_segment PAGE_SIZE drv address len c = (r, c1)"
      by (cases "GetData_segment PAGE_SIZE drv address len c") blast
    note fr1 = GetData_segment_frame [OF seg]
    from False have pos: "0 < PAGE_SIZE" by simp
    note unf = GetData_unfold [OF pos seg n_def]
    show ?thesis
    proof (cases r)
      case None
      with less.prems unf have "c' = c1" by simp
      with fr1 show ?thesis by simp
    next
      case (Some sg)
      show ?thesis
      proof (cases "0 < len - n")
        case True
        obtain ok2 out2 c2 where rec:
          "GetData PAGE_SIZE drv (address + of_nat n) (len - n) c1 = (ok2, out2, c2)"
          by (cases "GetData PAGE_SIZE drv (address + of_nat n) (len - n) c1") blast
        from less.prems unf Some True rec have c': "c' = c2" by simp
        from True pos have "0 < n" by (auto simp: n_def min_def split: if_splits)
        with True have "len - n < len" by simp
        from less.IH [OF this rec] fr1 c' show ?thesis by auto
      next
        case False
        with less.prems unf Some have "c' = c1" by simp
        with fr1 show ?thesis by simp
      qed
    qed
  qed
qed

subsection \<open>What GetData returns over a memory\<close>

lemma isInCache_add_in_page:
  fixes address :: "'a::len word"
  assumes "k \<le> LENGTH('a)" and "unat address mod 2 ^ k + i < 2 ^ k"
  shows "isInCache (2 ^ k) c (address + of_nat i) = isInCache (2 ^ k) c address"
  by (simp only: isInCache_def page_add_in_page [OF assms])

lemma cache_view_add_in_page:
  fixes address :: "'a::len word"
  assumes "k \<le> LENGTH('a)" and "unat address mod 2 ^ k + i < 2 ^ k"
  shows "cache_view (2 ^ k) c (address + of_nat i) =
     (if isInCache (2 ^ k) c address then m_Buffer c ! (unat address mod 2 ^ k + i)
      else cells (backing c) (address + of_nat i))"
  by (simp only: cache_view_def isInCache_add_in_page [OF assms] offset_add_in_page [OF assms])

lemma GetData_segment_flash:
  fixes address :: "'a::len word"
  assumes k: "k \<le> LENGTH('a)"
    and buf: "length (m_Buffer c) = 2 ^ k"
    and seg: "GetData_segment (2 ^ k) flash_driver address len c = (Some sg, c1)"
    and n: "n = min (2 ^ k - unat address mod 2 ^ k) len"
  shows "sg = map (\<lambda>i. cache_view (2 ^ k) c (address + of_nat i)) [0..<n]"
    and "backing c1 = backing c"
proof -
  have off: "unat address mod 2 ^ k < 2 ^ k" by simp
  have inpage: "unat address mod 2 ^ k + i < 2 ^ k" if "i < n" for i
    using that off n by (simp add: min_def split: if_splits)
  show "sg = map (\<lambda>i. cache_view (2 ^ k) c (address + of_nat i)) [0..<n]"
  proof (cases "isInCache (2 ^ k) c address")
    case True
    with seg n have sg: "sg = take n (drop (unat address mod 2 ^ k) (m_Buffer c))"
      by (auto simp: GetData_segment_def Let_def)
    show ?thesis
    proof (rule nth_equalityI)
      show "length sg = length (map (\<lambda>i. cache_view (2 ^ k) c (address + of_nat i)) [0..<n])"
        using sg buf n by (simp add: min_def)
    next
      fix i assume "i < length sg"
      with sg have i: "i < n" by simp
      from inpage [OF i] buf
      have "sg ! i = m_Buffer c ! (unat address mod 2 ^ k + i)"
        using sg i by simp
      with True i show "sg ! i = map (\<lambda>i. cache_view (2 ^ k) c (address + of_nat i)) [0..<n] ! i"
        by (simp add: cache_view_add_in_page [OF k inpage [OF i]])
    qed
  next
    case False
    with seg n have "sg = map (\<lambda>i. cells (backing c) (address + of_nat i)) [0..<n]"
      by (auto simp: GetData_segment_def Let_def do_Read_def flash_driver_def flash_Read_def
               split: if_splits)
    also have "\<dots> = map (\<lambda>i. cache_view (2 ^ k) c (address + of_nat i)) [0..<n]"
      using False by (simp add: cache_view_add_in_page [OF k inpage])
    finally show ?thesis .
  qed
  show "backing c1 = backing c"
    using seg
    by (auto simp: GetData_segment_def Let_def do_Read_def flash_driver_def flash_Read_def
             split: if_splits)
qed

lemma cache_view_cong:
  "m_Address c1 = m_Address c \<Longrightarrow> m_Status c1 = m_Status c \<Longrightarrow> m_Buffer c1 = m_Buffer c \<Longrightarrow>
   backing c1 = backing c \<Longrightarrow> cache_view PAGE_SIZE c1 = cache_view PAGE_SIZE c"
  by (rule ext) (simp add: cache_view_def isInCache_def)

lemma GetData_flash_view:
  fixes address :: "'a::len word"
  assumes k: "k \<le> LENGTH('a)"
    and buf: "length (m_Buffer c) = 2 ^ k"
    and get: "GetData (2 ^ k) flash_driver address len c = (True, out, c')"
  shows "out = map (\<lambda>i. cache_view (2 ^ k) c (address + of_nat i)) [0..<len] \<and>
         backing c' = backing c"
  using buf get
proof (induction len arbitrary: address c out c' rule: less_induct)
  case (less len)
  define n where "n = min (2 ^ k - unat address mod 2 ^ k) len"
  obtain r c1 where seg: "GetData_segment (2 ^ k) flash_driver address len c = (r, c1)"
    by (cases "GetData_segment (2 ^ k) flash_driver address len c") blast
  have pos: "0 < (2::nat) ^ k" by simp
  note unf = GetData_unfold [OF pos seg n_def]
  from less.prems(2) unf obtain sg where r: "r = Some sg"
    by (cases r) auto
  note fr = GetData_segment_frame [OF seg]
  note sem = GetData_segment_flash [OF k less.prems(1) seg [unfolded r] n_def]
  show ?case
  proof (cases "0 < len - n")
    case False
    then have "n = len" by (simp add: n_def min_def split: if_splits)
    with less.prems(2) unf r False sem show ?thesis by simp
  next
    case True
    obtain ok2 out2 c2 where rec:
      "GetData (2 ^ k) flash_driver (address + of_nat n) (len - n) c1 = (ok2, out2, c2)"
      by (cases "GetData (2 ^ k) flash_driver (address + of_nat n) (len - n) c1") blast
    from less.prems(2) unf r True rec
    have res: "ok2" "out = sg @ out2" "c' = c2" by simp_all
    from True have "0 < n" by (auto simp: n_def min_def split: if_splits)
    with True have lt: "len - n < len" by simp
    from fr less.prems(1) have buf1: "length (m_Buffer c1) = 2 ^ k" by simp
    from less.IH [OF lt buf1 rec [unfolded res(1) [THEN eqTrueI]]]
    have ih: "out2 = map (\<lambda>i. cache_view (2 ^ k) c1 (address + of_nat n + of_nat i)) [0..<len - n]"
      and b2: "backing c2 = backing c1" by simp_all
    have cv: "cache_view (2 ^ k) c1 = cache_view (2 ^ k) c"
      using fr sem(2) by (intro cache_view_cong) simp_all
    have nle: "n \<le> len" by (simp add: n_def)
    have "[0..<len] = [0..<n] @ [n..<len]"
      using nle by (metis upt_add_eq_append le0 le_add_diff_inverse)
    moreover have "map (\<lambda>i. cache_view (2 ^ k) c (address + of_nat i)) [n..<len] = out2"
    proof -
      have "out2 = map (\<lambda>i. cache_view (2 ^ k) c (address + of_nat (i + n))) [0..<len - n]"
        by (simp add: ih cv ac_simps)
      also have "\<dots> = map (\<lambda>i. cache_view (2 ^ k) c (address + of_nat i))
                          (map (\<lambda>i. i + n) [0..<len - n])"
        by (simp add: o_def)
      also have "map (\<lambda>i. i + n) [0..<len - n] = [n..<len]"
        using nle by (simp add: map_add_upt)
      finally show ?thesis by simp
    qed
    ultimately show ?thesis using res sem b2 by simp
  qed
qed

text \<open>
  C8. For any implementation of \<^verbatim>\<open>Read\<close> and \<^verbatim>\<open>Write\<close>, \<^verbatim>\<open>GetData\<close> returns an object
  with the status, resident address and buffer it was given, and the events it adds are
  all reads: it writes nothing and calls no callback. Over a memory, with a page size
  \<open>2 ^ k\<close> that the address type can hold, a \<^verbatim>\<open>GetData\<close> that succeeds returns, for each
  address of the request, the buffered byte when the page of that address is resident
  (so unflushed writes are seen) and the cell of the medium otherwise, and leaves the
  medium as it was.
\<close>

theorem GetData_read_through:
  fixes address :: "'a::len word" and address' :: "'b::len word"
  shows
  "(GetData PAGE_SIZE drv address len c = (ok, out, c') \<longrightarrow>
      m_Status c' = m_Status c \<and> m_Address c' = m_Address c \<and> m_Buffer c' = m_Buffer c \<and>
      (\<exists>rs. trace c' = trace c @ rs \<and> list_all is_read rs)) \<and>
   (k \<le> LENGTH('b) \<and> length (m_Buffer cf) = 2 ^ k \<and>
    GetData (2 ^ k) flash_driver address' len' cf = (True, out', cf') \<longrightarrow>
      out' = map (\<lambda>i. cache_view (2 ^ k) cf (address' + of_nat i)) [0..<len'] \<and>
      backing cf' = backing cf)"
  using GetData_frame [of PAGE_SIZE drv address len c ok out c']
        GetData_flash_view [of k cf address' len' out' cf']
  by blast

lemma ex_GetData:
  "fst (GetData 4 flash_driver 6 4 ex_dirty) = True"
  "fst (snd (GetData 4 flash_driver 6 4 ex_dirty)) = [6, 7, 1, 2]"
  "trace (snd (snd (GetData 4 flash_driver 6 4 ex_dirty))) = [EvRead 6 2]"
  by code_simp+

theorem GetData_read_through_witness:
  "fst (snd (GetData 4 flash_driver 6 4 ex_dirty)) = [6, 7, 1, 2] \<and>
   trace (snd (snd (GetData 4 flash_driver 6 4 ex_dirty))) = [EvRead 6 2] \<and>
   m_Status (snd (snd (GetData 4 flash_driver 6 4 ex_dirty))) = Dirty \<and>
   m_Address (snd (snd (GetData 4 flash_driver 6 4 ex_dirty))) = 8 \<and>
   m_Buffer (snd (snd (GetData 4 flash_driver 6 4 ex_dirty))) = [1, 2, 3, 4] \<and>
   (2::nat) \<le> LENGTH(32) \<and> length (m_Buffer ex_dirty) = 2 ^ 2 \<and>
   map (\<lambda>i. cache_view (2 ^ 2) ex_dirty (6 + of_nat i)) [0..<4] = [6, 7, 1, 2]"
  using GetData_read_through [of 4 flash_driver 6 4 ex_dirty
          "fst (GetData 4 flash_driver 6 4 ex_dirty)"
          "fst (snd (GetData 4 flash_driver 6 4 ex_dirty))"
          "snd (snd (GetData 4 flash_driver 6 4 ex_dirty))"
          2 ex_dirty "6 :: 32 word" 4
          "fst (snd (GetData 4 flash_driver 6 4 ex_dirty))"
          "snd (snd (GetData 4 flash_driver 6 4 ex_dirty))"]
        ex_GetData
  by (simp add: ex_dirty_def prod_eq_iff)

section \<open>Properties of the storage validators\<close>

text \<open>
  C3. \<^verbatim>\<open>IsStorageCorrect(address, uuid)\<close> checks in a fixed order and stops at the first
  check that fails: the magic constant at \<open>address\<close> (\<open>NoStorage\<close>), then the data
  identity (\<open>AnotherStorage\<close>), then the read of \<open>Length\<close> and the read of \<open>Crc\<close>
  (\<open>DeviceError\<close>), then the CRC recomputed over \<open>Length\<close> bytes after the header
  (\<open>StorageError\<close>). When the CRC matches the outcome is \<open>Ok\<close> and \<open>address\<close> becomes the
  object's stored address. Each outcome comes with the list of device calls made up to
  it, which shows that no later check was started.
\<close>

theorem IsStorageCorrect_check_order:
  fixes dev :: "('a::len word, 'c::len word) StorageDevice"
  shows
  "(\<not> Compare dev StorageUUID address 16 \<longrightarrow>
      IsStorageCorrect dev address uuid obj =
        (NoStorage, obj, [AccCompare StorageUUID address 16])) \<and>
   (Compare dev StorageUUID address 16 \<and> \<not> Compare dev uuid (address + 16) 16 \<longrightarrow>
      IsStorageCorrect dev address uuid obj =
        (AnotherStorage, obj,
         [AccCompare StorageUUID address 16, AccCompare uuid (address + 16) 16])) \<and>
   (Compare dev StorageUUID address 16 \<and> Compare dev uuid (address + 16) 16 \<and>
    ReadStorage dev (address + 32) (LENGTH('a) div 8) = None \<longrightarrow>
      IsStorageCorrect dev address uuid obj =
        (DeviceError, obj,
         [AccCompare StorageUUID address 16, AccCompare uuid (address + 16) 16,
          AccRead (address + 32) (LENGTH('a) div 8)])) \<and>
   (Compare dev StorageUUID address 16 \<and> Compare dev uuid (address + 16) 16 \<and>
    ReadStorage dev (address + 32) (LENGTH('a) div 8) = Some bl \<and>
    ReadStorage dev (address + of_nat (32 + LENGTH('a) div 8)) (LENGTH('c) div 8) = None \<longrightarrow>
      IsStorageCorrect dev address uuid obj =
        (DeviceError, obj,
         [AccCompare StorageUUID address 16, AccCompare uuid (address + 16) 16,
          AccRead (address + 32) (LENGTH('a) div 8),
          AccRead (address + of_nat (32 + LENGTH('a) div 8)) (LENGTH('c) div 8)])) \<and>
   (Compare dev StorageUUID address 16 \<and> Compare dev uuid (address + 16) 16 \<and>
    ReadStorage dev (address + 32) (LENGTH('a) div 8) = Some bl \<and>
    ReadStorage dev (address + of_nat (32 + LENGTH('a) div 8)) (LENGTH('c) div 8) = Some bc \<longrightarrow>
      fst (IsStorageCorrect dev address uuid obj) =
        (if le_word bc =
              CalculateCRC dev (address + of_nat (32 + LENGTH('a) div 8 + LENGTH('c) div 8))
                (unat (ucast (le_word bl :: 'a word) :: 32 word))
         then Ok else StorageError) \<and>
      fst (snd (IsStorageCorrect dev address uuid obj)) =
        (if le_word bc =
              CalculateCRC dev (address + of_nat (32 + LENGTH('a) div 8 + LENGTH('c) div 8))
                (unat (ucast (le_word bl :: 'a word) :: 32 word))
         then obj\<lparr>m_Address_reader := address\<rparr> else obj) \<and>
      snd (snd (IsStorageCorrect dev address uuid obj)) =
        [AccCompare StorageUUID address 16, AccCompare uuid (address + 16) 16,
         AccRead (address + 32) (LENGTH('a) div 8),
         AccRead (address + of_nat (32 + LENGTH('a) div 8)) (LENGTH('c) div 8),
         AccCRC (address + of_nat (32 + LENGTH('a) div 8 + LENGTH('c) div 8))
           (unat (ucast (le_word bl :: 'a word) :: 32 word))])"
  by (simp add: IsStorageCorrect_def getLength_def getCrc_def Let_def offset_DataUuid_def
        offset_Length_def offset_StorageCrc_def sizeof_StorageHeaderStruct_def)

lemma ex_region_eval:
  "Compare (image_device ex_region) StorageUUID 0 16"
  "Compare (image_device ex_region) ex_uuid 16 16"
  "\<not> Compare (image_device ex_region) ex_other_uuid 16 16"
  "\<not> Compare (image_device ex_region) StorageUUID 1 16"
  "ReadStorage (image_device ex_region) 32 4 = Some [4, 0, 0, 0]"
  "ReadStorage (image_device ex_region) 36 2 = Some [0xAA, 0]"
  "ReadStorage (image_device (take 34 ex_region)) 32 4 = None"
  "ReadStorage (image_device (take 37 ex_region)) 36 2 = None"
  "Compare (image_device (take 34 ex_region)) StorageUUID 0 16"
  "Compare (image_device (take 34 ex_region)) ex_uuid 16 16"
  "Compare (image_device (take 37 ex_region)) StorageUUID 0 16"
  "Compare (image_device (take 37 ex_region)) ex_uuid 16 16"
  "ReadStorage (image_device (take 37 ex_region)) 32 4 = Some [4, 0, 0, 0]"
  "Compare (image_device ex_region_bad_payload) StorageUUID 0 16"
  "Compare (image_device ex_region_bad_payload) ex_uuid 16 16"
  "ReadStorage (image_device ex_region_bad_payload) 32 4 = Some [4, 0, 0, 0]"
  "ReadStorage (image_device ex_region_bad_payload) 36 2 = Some [0xAA, 0]"
  "CalculateCRC (image_device ex_region) 38 4 = 0xAA"
  "CalculateCRC (image_device ex_region_bad_payload) 38 4 = 0xAB"
  "le_word [4, 0, 0, 0] = (4 :: 32 word)"
  "le_word [0xAA, 0] = (0xAA :: 16 word)"
  by code_simp+

theorem IsStorageCorrect_check_order_witness:
  "fst (IsStorageCorrect (image_device ex_region) 1 ex_uuid ex_reader_elsewhere) = NoStorage \<and>
   fst (IsStorageCorrect (image_device ex_region) 0 ex_other_uuid ex_reader_elsewhere)
     = AnotherStorage \<and>
   fst (IsStorageCorrect (image_device (take 34 ex_region)) 0 ex_uuid ex_reader_elsewhere)
     = DeviceError \<and>
   fst (IsStorageCorrect (image_device (take 37 ex_region)) 0 ex_uuid ex_reader_elsewhere)
     = DeviceError \<and>
   fst (IsStorageCorrect (image_device ex_region_bad_payload) 0 ex_uuid ex_reader_elsewhere)
     = StorageError \<and>
   fst (IsStorageCorrect (image_device ex_region) 0 ex_uuid ex_reader_elsewhere) = Ok \<and>
   m_Address_reader
     (fst (snd (IsStorageCorrect (image_device ex_region) 0 ex_uuid ex_reader_elsewhere))) = 0"
  using IsStorageCorrect_check_order
          [of "image_device ex_region" 1 ex_uuid ex_reader_elsewhere]
        IsStorageCorrect_check_order
          [of "image_device ex_region" 0 ex_other_uuid ex_reader_elsewhere]
        IsStorageCorrect_check_order
          [of "image_device (take 34 ex_region)" 0 ex_uuid ex_reader_elsewhere]
        IsStorageCorrect_check_order
          [of "image_device (take 37 ex_region)" 0 ex_uuid ex_reader_elsewhere "[4, 0, 0, 0]"]
        IsStorageCorrect_check_order
          [of "image_device ex_region_bad_payload" 0 ex_uuid ex_reader_elsewhere
              "[4, 0, 0, 0]" "[0xAA, 0]"]
        IsStorageCorrect_check_order
          [of "image_device ex_region" 0 ex_uuid ex_reader_elsewhere "[4, 0, 0, 0]" "[0xAA, 0]"]
        ex_region_eval
  by simp

lemma IsStorageCorrect_cases:
  "IsStorageCorrect dev address uuid obj = (r, obj', acc) \<Longrightarrow>
     (r = Ok \<and> obj' = obj\<lparr>m_Address_reader := address\<rparr>) \<or> (r \<noteq> Ok \<and> obj' = obj)"
  by (auto simp: IsStorageCorrect_def getLength_def getCrc_def Let_def
           split: if_splits option.splits)

lemma isPageCorrect_cases:
  "isPageCorrect dev address pageLen options obj = (r, obj', acc) \<Longrightarrow>
     (r = PageOk \<and> obj' = obj\<lparr>m_Address_page := address\<rparr>) \<or> (r \<noteq> PageOk \<and> obj' = obj)"
  by (auto simp: isPageCorrect_def Let_def split: if_splits option.splits prod.splits)

text \<open>
  C9. Both validators assign the stored address on the \<open>Ok\<close> path only. With any other
  outcome (\<open>NoStorage\<close>, \<open>AnotherStorage\<close>, \<open>DeviceError\<close>, \<open>StorageError\<close>, and for a page
  \<open>Error\<close>) the object returned is the object given, in all its members; with \<open>Ok\<close> it
  differs in the stored address alone, which is now the validated one.
\<close>

theorem validators_failure_frame:
  "(fst (IsStorageCorrect dev address uuid obj) \<noteq> Ok \<longrightarrow>
      fst (snd (IsStorageCorrect dev address uuid obj)) = obj) \<and>
   (fst (IsStorageCorrect dev address uuid obj) = Ok \<longrightarrow>
      fst (snd (IsStorageCorrect dev address uuid obj)) = obj\<lparr>m_Address_reader := address\<rparr>) \<and>
   (fst (isPageCorrect pdev paddress pageLen options pobj) \<noteq> PageOk \<longrightarrow>
      fst (snd (isPageCorrect pdev paddress pageLen options pobj)) = pobj) \<and>
   (fst (isPageCorrect pdev paddress pageLen options pobj) = PageOk \<longrightarrow>
      fst (snd (isPageCorrect pdev paddress pageLen options pobj)) =
        pobj\<lparr>m_Address_page := paddress\<rparr>)"
  using IsStorageCorrect_cases [of dev address uuid obj
          "fst (IsStorageCorrect dev address uuid obj)"
          "fst (snd (IsStorageCorrect dev address uuid obj))"
          "snd (snd (IsStorageCorrect dev address uuid obj))"]
        isPageCorrect_cases [of pdev paddress pageLen options pobj
          "fst (isPageCorrect pdev paddress pageLen options pobj)"
          "fst (snd (isPageCorrect pdev paddress pageLen options pobj))"
          "snd (snd (isPageCorrect pdev paddress pageLen options pobj))"]
  by auto

lemma ex_frame_eval:
  "fst (IsStorageCorrect (image_device ex_region_bad_payload) 0 ex_uuid ex_reader_elsewhere)
     = StorageError"
  "fst (IsStorageCorrect (image_device ex_region) 0 ex_uuid ex_reader_elsewhere) = Ok"
  "fst (isPageCorrect (image_page_device ex_page_bad_crc) 0 64
          \<lparr>DontCheckCrc = False, DontCheckMetrics = False\<rparr> ex_page_obj) = PageError"
  "fst (isPageCorrect (image_page_device ex_page) 0 64
          \<lparr>DontCheckCrc = False, DontCheckMetrics = False\<rparr> ex_page_obj) = PageOk"
  by code_simp+

theorem validators_failure_frame_witness:
  "fst (IsStorageCorrect (image_device ex_region_bad_payload) 0 ex_uuid ex_reader_elsewhere)
     \<noteq> Ok \<and>
   m_Address_reader (fst (snd (IsStorageCorrect (image_device ex_region_bad_payload) 0
      ex_uuid ex_reader_elsewhere))) = 100 \<and>
   fst (IsStorageCorrect (image_device ex_region) 0 ex_uuid ex_reader_elsewhere) = Ok \<and>
   m_Address_reader (fst (snd (IsStorageCorrect (image_device ex_region) 0
      ex_uuid ex_reader_elsewhere))) = 0 \<and>
   fst (isPageCorrect (image_page_device ex_page_bad_crc) 0 64
          \<lparr>DontCheckCrc = False, DontCheckMetrics = False\<rparr> ex_page_obj) \<noteq> PageOk \<and>
   m_Address_page (fst (snd (isPageCorrect (image_page_device ex_page_bad_crc) 0 64
          \<lparr>DontCheckCrc = False, DontCheckMetrics = False\<rparr> ex_page_obj))) = 100 \<and>
   fst (isPageCorrect (image_page_device ex_page) 0 64
          \<lparr>DontCheckCrc = False, DontCheckMetrics = False\<rparr> ex_page_obj) = PageOk \<and>
   m_Address_page (fst (snd (isPageCorrect (image_page_device ex_page) 0 64
          \<lparr>DontCheckCrc = False, DontCheckMetrics = False\<rparr> ex_page_obj))) = 0"
  using validators_failure_frame
          [of "image_device ex_region_bad_payload" 0 ex_uuid ex_reader_elsewhere
              "image_page_device ex_page_bad_crc" 0 64
              "\<lparr>DontCheckCrc = False, DontCheckMetrics = False\<rparr>" ex_page_obj]
        validators_failure_frame
          [of "image_device ex_region" 0 ex_uuid ex_reader_elsewhere
              "image_page_device ex_page" 0 64
              "\<lparr>DontCheckCrc = False, DontCheckMetrics = False\<rparr>" ex_page_obj]
        ex_frame_eval
  by (simp add: ex_reader_elsewhere_def ex_page_obj_def)

text \<open>
  C4. \<^verbatim>\<open>isPageCorrect\<close>, once the magic and the data identity have matched:
  with \<^verbatim>\<open>DontCheckMetrics\<close> set it reads nothing more, computes no CRC and returns \<open>Ok\<close>;
  otherwise a failed read of one of the four metrics fields gives \<open>DeviceError\<close>, and a
  violation of \<open>PageLength \<le> pageLen - header size\<close>, \<open>PageLength \<le> TotalLength\<close> or
  \<open>PageOffset \<le> TotalLength\<close> gives \<open>Error\<close>; after that, unless \<^verbatim>\<open>DontCheckCrc\<close> is set,
  the CRC over \<open>PageLength\<close> payload bytes decides between \<open>Ok\<close> and \<open>Error\<close>, and with
  \<^verbatim>\<open>DontCheckCrc\<close> set the outcome is \<open>Ok\<close> and no CRC is computed. \<open>pageLen - header size\<close>
  is computed in \<open>LENGTH_TYPE\<close>, as \<^verbatim>\<open>getMaxPageLength\<close> does.
\<close>

theorem isPageCorrect_option_gating:
  fixes dev :: "('a::len word, 'l::len word, 'c::len word) PageDevice"
  assumes magic: "ComparePage dev PageStorageUUID address 16"
    and ident: "ComparePage dev (m_Uuid obj) (address + 16) 16"
  shows
  "(DontCheckMetrics options \<longrightarrow>
      isPageCorrect dev address pageLen options obj =
        (PageOk, obj\<lparr>m_Address_page := address\<rparr>,
         [AccCompare PageStorageUUID address 16,
          AccCompare (m_Uuid obj) (address + 16) 16])) \<and>
   (\<not> DontCheckMetrics options \<and> fst (getMetrics dev address) = None \<longrightarrow>
      fst (isPageCorrect dev address pageLen options obj) = PageDeviceError) \<and>
   (\<not> DontCheckMetrics options \<and> fst (getMetrics dev address) = Some m \<and>
    \<not> (PageLength m \<le> pageLen - of_nat (32 + 3 * (LENGTH('l) div 8) + LENGTH('c) div 8) \<and>
       PageLength m \<le> TotalLength m \<and> PageOffset m \<le> TotalLength m) \<longrightarrow>
      fst (isPageCorrect dev address pageLen options obj) = PageError) \<and>
   (\<not> DontCheckMetrics options \<and> fst (getMetrics dev address) = Some m \<and>
    PageLength m \<le> pageLen - of_nat (32 + 3 * (LENGTH('l) div 8) + LENGTH('c) div 8) \<and>
    PageLength m \<le> TotalLength m \<and> PageOffset m \<le> TotalLength m \<and>
    \<not> DontCheckCrc options \<longrightarrow>
      fst (isPageCorrect dev address pageLen options obj) =
        (if PageCrc m =
              CalculatePageCRC dev
                (address + of_nat (32 + 3 * (LENGTH('l) div 8) + LENGTH('c) div 8))
                (PageLength m)
         then PageOk else PageError)) \<and>
   (\<not> DontCheckMetrics options \<and> fst (getMetrics dev address) = Some m \<and>
    PageLength m \<le> pageLen - of_nat (32 + 3 * (LENGTH('l) div 8) + LENGTH('c) div 8) \<and>
    PageLength m \<le> TotalLength m \<and> PageOffset m \<le> TotalLength m \<and>
    DontCheckCrc options \<longrightarrow>
      isPageCorrect dev address pageLen options obj =
        (PageOk, obj\<lparr>m_Address_page := address\<rparr>,
         [AccCompare PageStorageUUID address 16,
          AccCompare (m_Uuid obj) (address + 16) 16] @ snd (getMetrics dev address))) \<and>
   (fst (getMetrics dev address) = None \<longleftrightarrow>
      ReadPage dev (address + 32) (of_nat (LENGTH('l) div 8)) = None \<or>
      ReadPage dev (address + of_nat (32 + LENGTH('l) div 8)) (of_nat (LENGTH('l) div 8)) = None \<or>
      ReadPage dev (address + of_nat (32 + 2 * (LENGTH('l) div 8))) (of_nat (LENGTH('l) div 8))
        = None \<or>
      ReadPage dev (address + of_nat (32 + 3 * (LENGTH('l) div 8))) (of_nat (LENGTH('c) div 8))
        = None)"
proof -
  obtain rm am where gm: "getMetrics dev address = (rm, am)"
    by (cases "getMetrics dev address") blast
  have hdr: "getMaxPageLength TYPE('c) pageLen =
      pageLen - of_nat (32 + 3 * (LENGTH('l) div 8) + LENGTH('c) div 8)"
    by (simp only: getMaxPageLength_def sizeof_PageHeaderStruct_def)
  have unf: "isPageCorrect dev address pageLen options obj =
     (if \<not> DontCheckMetrics options then
        (case rm of
           None \<Rightarrow> (PageDeviceError, obj,
                    [AccCompare PageStorageUUID address 16,
                     AccCompare (m_Uuid obj) (address + 16) 16] @ am)
         | Some metrics \<Rightarrow>
             if \<not> (PageLength metrics \<le>
                     pageLen - of_nat (32 + 3 * (LENGTH('l) div 8) + LENGTH('c) div 8) \<and>
                   PageLength metrics \<le> TotalLength metrics \<and>
                   PageOffset metrics \<le> TotalLength metrics)
             then (PageError, obj,
                    [AccCompare PageStorageUUID address 16,
                     AccCompare (m_Uuid obj) (address + 16) 16] @ am)
             else if \<not> DontCheckCrc options
             then
               (if PageCrc metrics \<noteq>
                     CalculatePageCRC dev
                       (address + of_nat (32 + 3 * (LENGTH('l) div 8) + LENGTH('c) div 8))
                       (PageLength metrics)
                then (PageError, obj,
                       [AccCompare PageStorageUUID address 16,
                        AccCompare (m_Uuid obj) (address + 16) 16] @ am @
                       [AccCRC (address + of_nat (32 + 3 * (LENGTH('l) div 8)
                                   + LENGTH('c) div 8)) (PageLength metrics)])
                else (PageOk, obj\<lparr>m_Address_page := address\<rparr>,
                       [AccCompare PageStorageUUID address 16,
                        AccCompare (m_Uuid obj) (address + 16) 16] @ am @
                       [AccCRC (address + of_nat (32 + 3 * (LENGTH('l) div 8)
                                   + LENGTH('c) div 8)) (PageLength metrics)]))
             else (PageOk, obj\<lparr>m_Address_page := address\<rparr>,
                    [AccCompare PageStorageUUID address 16,
                     AccCompare (m_Uuid obj) (address + 16) 16] @ am))
      else (PageOk, obj\<lparr>m_Address_page := address\<rparr>,
             [AccCompare PageStorageUUID address 16,
              AccCompare (m_Uuid obj) (address + 16) 16]))"
    using magic ident
    by (auto simp: isPageCorrect_def gm hdr Let_def offset_DataUuid_def
          sizeof_PageHeaderStruct_def
          simp del: of_nat_add of_nat_mult split: option.splits)
  have g: "fst (getMetrics dev address) = None \<longleftrightarrow>
      ReadPage dev (address + 32) (of_nat (LENGTH('l) div 8)) = None \<or>
      ReadPage dev (address + of_nat (32 + LENGTH('l) div 8)) (of_nat (LENGTH('l) div 8)) = None \<or>
      ReadPage dev (address + of_nat (32 + 2 * (LENGTH('l) div 8))) (of_nat (LENGTH('l) div 8))
        = None \<or>
      ReadPage dev (address + of_nat (32 + 3 * (LENGTH('l) div 8))) (of_nat (LENGTH('c) div 8))
        = None"
    by (simp add: getMetrics_def sizeof_LENGTH_TYPE_def Let_def del: of_nat_add of_nat_mult
             split: option.splits)
  show ?thesis
    by (intro conjI impI g) (simp_all add: unf gm)
qed


lemma ex_page_eval:
  "ComparePage (image_page_device ex_page) PageStorageUUID 0 16"
  "ComparePage (image_page_device ex_page) (m_Uuid ex_page_obj) (0 + 16) 16"
  "ComparePage (image_page_device ex_page_bad_crc) PageStorageUUID 0 16"
  "ComparePage (image_page_device ex_page_bad_crc) (m_Uuid ex_page_obj) (0 + 16) 16"
  "ComparePage (image_page_device ex_page_bad_metrics) PageStorageUUID 0 16"
  "ComparePage (image_page_device ex_page_bad_metrics) (m_Uuid ex_page_obj) (0 + 16) 16"
  "ComparePage (image_page_device (take 35 ex_page)) PageStorageUUID 0 16"
  "ComparePage (image_page_device (take 35 ex_page)) (m_Uuid ex_page_obj) (0 + 16) 16"
  "fst (getMetrics (image_page_device ex_page) 0) =
     Some \<lparr>TotalLength = 10, PageOffset = 0, PageLength = 4, PageCrc = 0xAA\<rparr>"
  "fst (getMetrics (image_page_device ex_page_bad_crc) 0) =
     Some \<lparr>TotalLength = 10, PageOffset = 0, PageLength = 4, PageCrc = 0xAB\<rparr>"
  "fst (getMetrics (image_page_device ex_page_bad_metrics) 0) =
     Some \<lparr>TotalLength = 3, PageOffset = 0, PageLength = 4, PageCrc = 0xAA\<rparr>"
  "fst (getMetrics (image_page_device (take 35 ex_page)) 0) = None"
  "CalculatePageCRC (image_page_device ex_page) 40 4 = 0xAA"
  "CalculatePageCRC (image_page_device ex_page_bad_crc) 40 4 = 0xAA"
  by code_simp+

theorem isPageCorrect_option_gating_witness:
  "fst (isPageCorrect (image_page_device ex_page_bad_metrics) 0 64
          \<lparr>DontCheckCrc = False, DontCheckMetrics = True\<rparr> ex_page_obj) = PageOk \<and>
   fst (isPageCorrect (image_page_device (take 35 ex_page)) 0 64
          \<lparr>DontCheckCrc = False, DontCheckMetrics = False\<rparr> ex_page_obj) = PageDeviceError \<and>
   fst (isPageCorrect (image_page_device ex_page_bad_metrics) 0 64
          \<lparr>DontCheckCrc = False, DontCheckMetrics = False\<rparr> ex_page_obj) = PageError \<and>
   fst (isPageCorrect (image_page_device ex_page) 0 43
          \<lparr>DontCheckCrc = False, DontCheckMetrics = False\<rparr> ex_page_obj) = PageError \<and>
   fst (isPageCorrect (image_page_device ex_page_bad_crc) 0 64
          \<lparr>DontCheckCrc = False, DontCheckMetrics = False\<rparr> ex_page_obj) = PageError \<and>
   fst (isPageCorrect (image_page_device ex_page) 0 64
          \<lparr>DontCheckCrc = False, DontCheckMetrics = False\<rparr> ex_page_obj) = PageOk \<and>
   fst (isPageCorrect (image_page_device ex_page_bad_crc) 0 64
          \<lparr>DontCheckCrc = True, DontCheckMetrics = False\<rparr> ex_page_obj) = PageOk"
  using isPageCorrect_option_gating [OF ex_page_eval(5) ex_page_eval(6),
          where options = "\<lparr>DontCheckCrc = False, DontCheckMetrics = True\<rparr>" and pageLen = 64]
        isPageCorrect_option_gating [OF ex_page_eval(7) ex_page_eval(8),
          where options = "\<lparr>DontCheckCrc = False, DontCheckMetrics = False\<rparr>" and pageLen = 64]
        isPageCorrect_option_gating [OF ex_page_eval(5) ex_page_eval(6),
          where options = "\<lparr>DontCheckCrc = False, DontCheckMetrics = False\<rparr>"
            and pageLen = 64
            and m = "\<lparr>TotalLength = 3, PageOffset = 0, PageLength = 4, PageCrc = 0xAA\<rparr>"]
        isPageCorrect_option_gating [OF ex_page_eval(1) ex_page_eval(2),
          where options = "\<lparr>DontCheckCrc = False, DontCheckMetrics = False\<rparr>"
            and pageLen = 43
            and m = "\<lparr>TotalLength = 10, PageOffset = 0, PageLength = 4, PageCrc = 0xAA\<rparr>"]
        isPageCorrect_option_gating [OF ex_page_eval(3) ex_page_eval(4),
          where options = "\<lparr>DontCheckCrc = False, DontCheckMetrics = False\<rparr>"
            and pageLen = 64
            and m = "\<lparr>TotalLength = 10, PageOffset = 0, PageLength = 4, PageCrc = 0xAB\<rparr>"]
        isPageCorrect_option_gating [OF ex_page_eval(1) ex_page_eval(2),
          where options = "\<lparr>DontCheckCrc = False, DontCheckMetrics = False\<rparr>"
            and pageLen = 64
            and m = "\<lparr>TotalLength = 10, PageOffset = 0, PageLength = 4, PageCrc = 0xAA\<rparr>"]
        isPageCorrect_option_gating [OF ex_page_eval(3) ex_page_eval(4),
          where options = "\<lparr>DontCheckCrc = True, DontCheckMetrics = False\<rparr>"
            and pageLen = 64
            and m = "\<lparr>TotalLength = 10, PageOffset = 0, PageLength = 4, PageCrc = 0xAB\<rparr>"]
        ex_page_eval
  by simp

lemma ex_reader_eval:
  "fst (IsStorageCorrect (image_device ex_region) 0 ex_uuid ex_reader_elsewhere) = Ok"
  "fst (snd (IsStorageCorrect (image_device ex_region) 0 ex_uuid ex_reader_elsewhere))
     = ex_reader"
  "GetData_reader (image_device ex_region) ex_reader 2 1 = Some [0xB0, 0x24, 0xF2]"
  "GetData_reader_spec (image_device ex_region) ex_reader 2 1 = Some [0x22, 0x33]"
  by code_simp+

lemma ex_reader_wrap_eval:
  "GetData_reader (image_device ex_region) ex_reader 2 0xFFFFFFFF = Some [0xB0]"
  "GetData_reader_spec (image_device ex_region) ex_reader 2 0xFFFFFFFF = None"
  by (simp_all add: GetData_reader_def GetData_reader_spec_def getLength_def image_device_def
        ex_reader_def image_slice_def ex_region_def StorageUUID_def ex_uuid_def
        offset_Length_def)

text \<open>
  C2. \<^verbatim>\<open>StorageReaderClass::GetData\<close> on a region that \<^verbatim>\<open>IsStorageCorrect\<close> has just
  accepted at address 0, with \<open>Length = 4\<close> and payload \<open>11 22 33 44\<close>. For \<open>len = 2\<close>,
  \<open>offset = 1\<close> the bound check passes and the code calls
  \<^verbatim>\<open>Read(data, m_Address, len + offset)\<close>: it delivers three bytes taken from the start of
  the header, the first bytes of the magic constant, where the payload bytes \<open>22 33\<close> at
  \<open>m_Address + sizeof(header) + offset\<close> were asked for. For \<open>len = 2\<close>,
  \<open>offset = 0xFFFFFFFF\<close> the sum wraps to 1, the bound check passes although
  \<open>offset + len\<close> exceeds \<open>Length\<close>, and one byte is delivered.
\<close>

theorem GetData_reader_reads_from_header:
  "fst (IsStorageCorrect (image_device ex_region) 0 ex_uuid ex_reader_elsewhere) = Ok \<and>
   fst (snd (IsStorageCorrect (image_device ex_region) 0 ex_uuid ex_reader_elsewhere))
     = ex_reader \<and>
   GetData_reader (image_device ex_region) ex_reader 2 1 = Some [0xB0, 0x24, 0xF2] \<and>
   GetData_reader_spec (image_device ex_region) ex_reader 2 1 = Some [0x22, 0x33] \<and>
   GetData_reader (image_device ex_region) ex_reader 2 0xFFFFFFFF = Some [0xB0] \<and>
   GetData_reader_spec (image_device ex_region) ex_reader 2 0xFFFFFFFF = None"
  using ex_reader_eval ex_reader_wrap_eval by simp

section \<open>Write-then-read coherence over a memory\<close>

subsection \<open>Buffer updates and membership in an aligned page\<close>

lemma length_store_at: "length (store_at buf off src n) = length buf"
  by (simp add: store_at_def)

lemma nth_store_at:
  "i < length buf \<Longrightarrow>
     store_at buf off src n ! i = (if off \<le> i \<and> i < off + n then src ! (i - off) else buf ! i)"
  by (simp add: store_at_def)

lemma aligned_offset_zero:
  fixes p :: "'a::len word"
  assumes "p = p AND NOT (of_nat (2 ^ k) - 1)"
  shows "unat p mod 2 ^ k = 0"
proof -
  from assms have "unat p = unat p - unat p mod 2 ^ k"
    by (metis unat_page)
  moreover have "unat p mod 2 ^ k \<le> unat p" by (rule mod_less_eq_dividend)
  ultimately show ?thesis by linarith
qed

lemma word_split_page:
  fixes x :: "'a::len word"
  shows "x = (x AND NOT (of_nat (2 ^ k) - 1)) + of_nat (unat x mod 2 ^ k)"
proof -
  have "of_nat (unat x mod 2 ^ k) = x AND mask k"
    by (metis unat_low of_nat_unat ucast_id)
  then show ?thesis
    by (simp only: page_mask split_page) simp
qed

lemma in_aligned_page_iff:
  fixes p x :: "'a::len word"
  assumes k: "k \<le> LENGTH('a)" and al: "p = p AND NOT (of_nat (2 ^ k) - 1)"
  shows "x AND NOT (of_nat (2 ^ k) - 1) = p \<longleftrightarrow> unat (x - p) < 2 ^ k"
proof
  assume "x AND NOT (of_nat (2 ^ k) - 1) = p"
  then have "x - (x AND mask k) = p"
    by (simp only: page_mask split_page)
  then have "x - p = x AND mask k"
    by (metis add_diff_cancel_left' diff_add_cancel add.commute)
  then show "unat (x - p) < 2 ^ k"
    by (simp add: unat_low)
next
  assume lt: "unat (x - p) < 2 ^ k"
  have x: "x = p + of_nat (unat (x - p))" by simp
  from aligned_offset_zero [OF al] lt
  have "unat p mod 2 ^ k + unat (x - p) < 2 ^ k" by simp
  from page_add_in_page [OF k this] al x
  show "x AND NOT (of_nat (2 ^ k) - 1) = p" by metis
qed

lemma in_aligned_page_offset:
  fixes p x :: "'a::len word"
  assumes k: "k \<le> LENGTH('a)" and al: "p = p AND NOT (of_nat (2 ^ k) - 1)"
    and lt: "unat (x - p) < 2 ^ k"
  shows "unat x mod 2 ^ k = unat (x - p)"
proof -
  have x: "x = p + of_nat (unat (x - p))" by simp
  from aligned_offset_zero [OF al] lt
  have "unat p mod 2 ^ k + unat (x - p) < 2 ^ k" by simp
  from offset_add_in_page [OF k this] aligned_offset_zero [OF al] x
  show ?thesis by (metis add_0)
qed

subsection \<open>Flushing and re-addressing keep what a read returns\<close>

lemma Flush_flash_view:
  fixes c :: "('a::len word, 'a word flash) PageCacheClass"
  assumes k: "k \<le> LENGTH('a)" and ok: "cache_ok (2 ^ k) c" and d: "m_Status c = Dirty"
    and fl: "Flush (2 ^ k) flash_driver callback c = (True, c')"
  shows "cache_view (2 ^ k) c' = cache_view (2 ^ k) c"
    and "m_Status c' = Empty" and "m_Buffer c' = m_Buffer c"
proof -
  let ?p = "m_Address c"
  from ok d have al: "?p = ?p AND NOT (of_nat (2 ^ k) - 1)"
    by (simp add: cache_ok_def)
  from fl d have wf: "\<not> write_fails (backing c) ?p (2 ^ k)"
    by (auto simp: Flush_def do_Write_def flash_driver_def flash_Write_def Let_def
             split: option.splits if_splits)
  from fl d wf have st: "m_Status c' = Empty" and bf: "m_Buffer c' = m_Buffer c"
    and cl: "cells (backing c') = (\<lambda>x. if unat (x - ?p) < 2 ^ k
                 then m_Buffer c ! unat (x - ?p) else cells (backing c) x)"
    by (auto simp: Flush_def do_Write_def flash_driver_def flash_Write_def Let_def Clear_def
             split: option.splits)
  show "m_Status c' = Empty" by (rule st)
  show "m_Buffer c' = m_Buffer c" by (rule bf)
  show "cache_view (2 ^ k) c' = cache_view (2 ^ k) c"
  proof (rule ext)
    fix x
    show "cache_view (2 ^ k) c' x = cache_view (2 ^ k) c x"
    proof (cases "unat (x - ?p) < 2 ^ k")
      case True
      with in_aligned_page_iff [OF k al, of x] d
      have "isInCache (2 ^ k) c x" by (simp add: isInCache_def)
      with True st cl in_aligned_page_offset [OF k al True]
      show ?thesis by (simp add: cache_view_def isInCache_def)
    next
      case False
      with in_aligned_page_iff [OF k al, of x]
      have "\<not> isInCache (2 ^ k) c x" by (auto simp: isInCache_def)
      with False st cl show ?thesis by (auto simp: cache_view_def isInCache_def)
    qed
  qed
qed

lemma setAddress_flash_view:
  fixes c :: "('a::len word, 'a word flash) PageCacheClass"
  assumes k: "k \<le> LENGTH('a)" and ok: "cache_ok (2 ^ k) c"
    and sa: "setAddress (2 ^ k) flash_driver address callback c = (True, c1)"
  shows "cache_view (2 ^ k) c1 = cache_view (2 ^ k) c"
    and "m_Address c1 = address AND NOT (of_nat (2 ^ k) - 1)"
    and "length (m_Buffer c1) = 2 ^ k"
    and "m_Status c1 = Empty \<or> m_Status c1 = Dirty"
proof -
  show "m_Address c1 = address AND NOT (of_nat (2 ^ k) - 1)"
    using sa by (auto simp: setAddress_def Let_def split: if_splits prod.splits)
  show "cache_view (2 ^ k) c1 = cache_view (2 ^ k) c"
    and "length (m_Buffer c1) = 2 ^ k"
    and "m_Status c1 = Empty \<or> m_Status c1 = Dirty"
  proof (atomize (full), cases "m_Status c = Dirty \<and> \<not> isInCache (2 ^ k) c address")
    case True
    then obtain c' where fl: "Flush (2 ^ k) flash_driver callback c = (True, c')"
      and c1: "c1 = c'\<lparr>m_Address := address AND NOT (of_nat (2 ^ k) - 1)\<rparr>"
      using sa by (auto simp: setAddress_def Let_def split: if_splits prod.splits)
    from True have d: "m_Status c = Dirty" by simp
    note fv = Flush_flash_view [OF k ok d fl]
    have "cache_view (2 ^ k) c1 = cache_view (2 ^ k) c'"
      using fv(2) c1 by (intro ext) (simp add: cache_view_def isInCache_def)
    with fv c1 ok
    show "cache_view (2 ^ k) c1 = cache_view (2 ^ k) c \<and> length (m_Buffer c1) = 2 ^ k \<and>
          (m_Status c1 = Empty \<or> m_Status c1 = Dirty)"
      by (simp add: cache_ok_def)
  next
    case False
    then have c1: "c1 = c\<lparr>m_Address := address AND NOT (of_nat (2 ^ k) - 1)\<rparr>"
      using sa by (auto simp: setAddress_def Let_def split: if_splits prod.splits)
    have "cache_view (2 ^ k) c1 = cache_view (2 ^ k) c"
    proof (cases "m_Status c = Dirty")
      case True
      with False have "m_Address c = address AND NOT (of_nat (2 ^ k) - 1)"
        by (simp add: isInCache_def)
      with c1 show ?thesis by (intro ext) (simp add: cache_view_def isInCache_def)
    next
      case nd: False
      with ok have "m_Status c = Empty" by (cases "m_Status c") (simp_all add: cache_ok_def)
      with c1 show ?thesis by (intro ext) (simp add: cache_view_def isInCache_def)
    qed
    with c1 ok
    show "cache_view (2 ^ k) c1 = cache_view (2 ^ k) c \<and> length (m_Buffer c1) = 2 ^ k \<and>
          (m_Status c1 = Empty \<or> m_Status c1 = Dirty)"
      by (cases "m_Status c") (simp_all add: cache_ok_def)
  qed
qed

lemma Read_buf_flash:
  assumes "Read_buf flash_driver off a n c = (True, c')"
  shows "m_Buffer c' = store_at (m_Buffer c) off (map (\<lambda>i. cells (backing c) (a + of_nat i)) [0..<n]) n"
    and "m_Status c' = m_Status c" and "m_Address c' = m_Address c"
    and "backing c' = backing c"
  using assms
  by (auto simp: Read_buf_def do_Read_def flash_driver_def flash_Read_def Let_def
           split: if_splits option.splits)

subsection \<open>The cached path of SetData\<close>

lemma SetData_unaligned_fail:
  "setAddress PAGE_SIZE drv address callback c = (False, c1) \<Longrightarrow>
     SetData_unaligned PAGE_SIZE drv callback data address len c = (False, c1)"
  by (simp add: SetData_unaligned_def)

lemma SetData_unaligned_resident:
  assumes "setAddress PAGE_SIZE drv address callback c = (True, c1)"
    and "m_Status c1 \<noteq> Empty"
    and "n = min (PAGE_SIZE - unat address mod PAGE_SIZE) len"
  shows "SetData_unaligned PAGE_SIZE drv callback data address len c =
     (True, c1\<lparr>m_Buffer := store_at (m_Buffer c1) (unat address mod PAGE_SIZE) data n,
               m_Status := Dirty\<rparr>)"
  using assms by (simp add: SetData_unaligned_def Let_def)

lemma SetData_unaligned_fill:
  assumes sa: "setAddress PAGE_SIZE drv address callback c = (True, c1)"
    and p: "(if m_Status c1 = Empty \<and> m_Address c1 \<noteq> address
          then Read_buf drv 0 (m_Address c1) (unat address mod PAGE_SIZE) c1
          else (True, c1)) = (ok2, c2)"
    and n: "n = min (PAGE_SIZE - unat address mod PAGE_SIZE) len"
    and c3: "c3 = c2\<lparr>m_Buffer := store_at (m_Buffer c2) (unat address mod PAGE_SIZE) data n\<rparr>"
    and s: "(if m_Status c3 = Empty \<and> PAGE_SIZE - unat address mod PAGE_SIZE > n
          then Read_buf drv (unat address mod PAGE_SIZE + n)
                 (m_Address c3 + of_nat (unat address mod PAGE_SIZE) + of_nat n)
                 (PAGE_SIZE - unat address mod PAGE_SIZE - n) c3
          else (True, c3)) = (ok4, c4)"
  shows "SetData_unaligned PAGE_SIZE drv callback data address len c =
     (if \<not> ok2 then (False, c2)
      else if \<not> ok4 then (False, c4)
      else (True, c4\<lparr>m_Status := Dirty\<rparr>))"
proof -
  have "SetData_unaligned PAGE_SIZE drv callback data address len c =
     (if \<not> ok2 then (False, c2)
      else case (if m_Status c3 = Empty \<and> PAGE_SIZE - unat address mod PAGE_SIZE > n
          then Read_buf drv (unat address mod PAGE_SIZE + n)
                 (m_Address c3 + of_nat (unat address mod PAGE_SIZE) + of_nat n)
                 (PAGE_SIZE - unat address mod PAGE_SIZE - n) c3
          else (True, c3)) of (ok4, c4) \<Rightarrow>
            if \<not> ok4 then (False, c4) else (True, c4\<lparr>m_Status := Dirty\<rparr>))"
    unfolding SetData_unaligned_def c3 n
    by (simp only: sa p prod.case Let_def not_True_eq_False if_False)
  then show ?thesis
    by (simp only: s prod.case)
qed

lemma fill_buffer_nth:
  assumes len: "length buf = P" and off: "off < P" and n: "n \<le> P - off" and j: "j < P"
    and b2: "buf2 = (if off \<noteq> 0 then store_at buf 0 (map f [0..<off]) off else buf)"
    and b3: "buf3 = store_at buf2 off data n"
    and b4: "buf4 = (if P - off > n
                     then store_at buf3 (off + n) (map g [0..<P - off - n]) (P - off - n)
                     else buf3)"
  shows "buf4 ! j =
     (if off \<le> j \<and> j < off + n then data ! (j - off)
      else if j < off then f j else g (j - off - n))"
proof -
  have l2: "length buf2 = P" using len b2 by (simp add: length_store_at)
  have l3: "length buf3 = P" using l2 b3 by (simp add: length_store_at)
  have n2: "buf2 ! j = (if j < off then f j else buf ! j)"
    using b2 j len by (auto simp: nth_store_at)
  have n3: "buf3 ! j = (if off \<le> j \<and> j < off + n then data ! (j - off) else buf2 ! j)"
    using b3 j l2 by (simp add: nth_store_at)
  show ?thesis
  proof (cases "P - off > n")
    case True
    with b4 j l3 have "buf4 ! j =
      (if off + n \<le> j then g (j - (off + n)) else buf3 ! j)"
      by (auto simp: nth_store_at)
    with n3 n2 show ?thesis by auto
  next
    case False
    with n have "off + n = P" using off by simp
    with b4 False n3 n2 j show ?thesis by auto
  qed
qed


lemma page_eq_address_iff:
  fixes address :: "'a::len word"
  shows "address AND NOT (of_nat (2 ^ k) - 1) = address \<longleftrightarrow> unat address mod 2 ^ k = 0"
proof
  assume "address AND NOT (of_nat (2 ^ k) - 1) = address"
  then have "address = address AND NOT (of_nat (2 ^ k) - 1)" by simp
  then show "unat address mod 2 ^ k = 0" by (rule aligned_offset_zero)
next
  assume "unat address mod 2 ^ k = 0"
  then have "unat (address AND NOT (of_nat (2 ^ k) - 1)) = unat address"
    by (simp only: unat_page)
  then show "address AND NOT (of_nat (2 ^ k) - 1) = address"
    by (simp only: word_unat_eq_iff)
qed

lemma page_idem:
  fixes x :: "'a::len word"
  shows "x AND NOT m = (x AND NOT m) AND NOT m"
  by (simp add: and.assoc)

lemma SetData_unaligned_flash_view:
  fixes c :: "('a::len word, 'a word flash) PageCacheClass"
  assumes k: "k \<le> LENGTH('a)" and ok: "cache_ok (2 ^ k) c"
    and su: "SetData_unaligned (2 ^ k) flash_driver callback data address len c = (True, c5)"
    and n: "n = min (2 ^ k - unat address mod 2 ^ k) len"
  shows "cache_ok (2 ^ k) c5 \<and> m_Status c5 = Dirty \<and>
         m_Address c5 = address AND NOT (of_nat (2 ^ k) - 1) \<and>
         (\<forall>x. cache_view (2 ^ k) c5 x =
            (if x AND NOT (of_nat (2 ^ k) - 1) = address AND NOT (of_nat (2 ^ k) - 1) \<and>
                unat address mod 2 ^ k \<le> unat x mod 2 ^ k \<and>
                unat x mod 2 ^ k < unat address mod 2 ^ k + n
             then data ! (unat x mod 2 ^ k - unat address mod 2 ^ k)
             else cache_view (2 ^ k) c x))"
proof -
  let ?P = "(2::nat) ^ k"
  let ?p = "address AND NOT (of_nat ?P - 1)"
  let ?off = "unat address mod ?P"
  have off: "?off < ?P" by simp
  have nle: "n \<le> ?P - ?off" by (simp add: n)
  obtain ok1 c1 where sa0: "setAddress ?P flash_driver address callback c = (ok1, c1)"
    by (cases "setAddress ?P flash_driver address callback c") blast
  with su have ok1 by (cases ok1) (simp_all add: SetData_unaligned_fail)
  with sa0 have sa: "setAddress ?P flash_driver address callback c = (True, c1)" by simp
  note sv = setAddress_flash_view [OF k ok sa]
  have jlt: "unat x mod ?P < length (m_Buffer c1)" for x :: "'a word"
    using sv(3) by simp
  show ?thesis
  proof (cases "m_Status c1 = Empty")
    case False
    with sv(4) have d: "m_Status c1 = Dirty" by simp
    from SetData_unaligned_resident [OF sa False n] su
    have c5: "c5 = c1\<lparr>m_Buffer := store_at (m_Buffer c1) ?off data n, m_Status := Dirty\<rparr>"
      by simp
    have "cache_ok ?P c5"
      using c5 sv(2,3) page_idem [of address "of_nat ?P - 1"]
      by (simp add: cache_ok_def length_store_at)
    moreover have "cache_view ?P c5 x =
            (if x AND NOT (of_nat ?P - 1) = ?p \<and> ?off \<le> unat x mod ?P \<and>
                unat x mod ?P < ?off + n
             then data ! (unat x mod ?P - ?off)
             else cache_view ?P c x)" for x
      unfolding sv(1) [symmetric]
      using c5 d sv(2) jlt [of x]
      by (auto simp: cache_view_def isInCache_def nth_store_at)
    ultimately show ?thesis using c5 sv(2) by simp
  next
    case True
    have pa: "m_Address c1 \<noteq> address \<longleftrightarrow> ?off \<noteq> 0"
      using page_eq_address_iff [of address k] sv(2) by simp
    obtain ok2 c2 where p: "(if m_Status c1 = Empty \<and> m_Address c1 \<noteq> address
          then Read_buf flash_driver 0 (m_Address c1) ?off c1
          else (True, c1)) = (ok2, c2)"
      by (cases "(if m_Status c1 = Empty \<and> m_Address c1 \<noteq> address
          then Read_buf flash_driver 0 (m_Address c1) ?off c1
          else (True, c1))") blast
    define c3 where "c3 = c2\<lparr>m_Buffer := store_at (m_Buffer c2) ?off data n\<rparr>"
    obtain ok4 c4 where s: "(if m_Status c3 = Empty \<and> ?P - ?off > n
          then Read_buf flash_driver (?off + n)
                 (m_Address c3 + of_nat ?off + of_nat n) (?P - ?off - n) c3
          else (True, c3)) = (ok4, c4)"
      by (cases "(if m_Status c3 = Empty \<and> ?P - ?off > n
          then Read_buf flash_driver (?off + n)
                 (m_Address c3 + of_nat ?off + of_nat n) (?P - ?off - n) c3
          else (True, c3))") blast
    from SetData_unaligned_fill [OF sa p n c3_def s] su
    have ok2 and ok4 and c5: "c5 = c4\<lparr>m_Status := Dirty\<rparr>"
      by (auto split: if_splits)
    let ?f = "\<lambda>i. cells (backing c1) (?p + of_nat i)"
    let ?g = "\<lambda>i. cells (backing c1) (?p + of_nat ?off + of_nat n + of_nat i)"
    have c2: "m_Buffer c2 = (if ?off \<noteq> 0
                then store_at (m_Buffer c1) 0 (map ?f [0..<?off]) ?off else m_Buffer c1)"
      "m_Status c2 = Empty" "m_Address c2 = ?p" "backing c2 = backing c1"
      using p \<open>ok2\<close> True pa sv(2)
      by (auto split: if_splits dest: Read_buf_flash)
    have c3: "m_Buffer c3 = store_at (m_Buffer c2) ?off data n"
      "m_Status c3 = Empty" "m_Address c3 = ?p" "backing c3 = backing c1"
      using c2 by (simp_all add: c3_def)
    have c4: "m_Buffer c4 = (if ?P - ?off > n
                then store_at (m_Buffer c3) (?off + n) (map ?g [0..<?P - ?off - n]) (?P - ?off - n)
                else m_Buffer c3)"
      "m_Status c4 = Empty" "m_Address c4 = ?p" "backing c4 = backing c1"
      using s \<open>ok4\<close> c3(2,3,4)
      by (auto split: if_splits dest: Read_buf_flash)
    have nth: "m_Buffer c4 ! j =
       (if ?off \<le> j \<and> j < ?off + n then data ! (j - ?off)
        else cells (backing c1) (?p + of_nat j))" if j: "j < ?P" for j
    proof -
      from fill_buffer_nth [OF sv(3) off nle j c2(1) c3(1) c4(1)]
      have "m_Buffer c4 ! j =
        (if ?off \<le> j \<and> j < ?off + n then data ! (j - ?off)
         else if j < ?off then ?f j else ?g (j - ?off - n))" .
      moreover have "?g (j - ?off - n) = cells (backing c1) (?p + of_nat j)"
        if "\<not> j < ?off + n"
      proof -
        from that have "?off + n + (j - ?off - n) = j" by simp
        then have "(of_nat ?off + of_nat n + of_nat (j - ?off - n) :: 'a word) = of_nat j"
          by (metis of_nat_add)
        then show ?thesis by (simp add: add.assoc)
      qed
      ultimately show ?thesis by auto
    qed
    have len4: "length (m_Buffer c4) = ?P"
      using c4(1) c3(1) c2(1) sv(3) by (simp add: length_store_at)
    have "cache_ok ?P c5"
      using c5 c4(3) len4 page_idem [of address "of_nat ?P - 1"]
      by (simp add: cache_ok_def)
    moreover have "cache_view ?P c5 x =
            (if x AND NOT (of_nat ?P - 1) = ?p \<and> ?off \<le> unat x mod ?P \<and>
                unat x mod ?P < ?off + n
             then data ! (unat x mod ?P - ?off)
             else cache_view ?P c x)" for x
    proof (cases "x AND NOT (of_nat ?P - 1) = ?p")
      case inpage: True
      have "unat x mod ?P < ?P" by simp
      from nth [OF this] word_split_page [of x k] inpage
      have "m_Buffer c4 ! (unat x mod ?P) =
         (if ?off \<le> unat x mod ?P \<and> unat x mod ?P < ?off + n
          then data ! (unat x mod ?P - ?off)
          else cells (backing c1) x)"
        by simp
      moreover have "cache_view ?P c x = cells (backing c1) x"
        unfolding sv(1) [symmetric] using True by (simp add: cache_view_def isInCache_def)
      moreover have "cache_view ?P c5 x = m_Buffer c4 ! (unat x mod ?P)"
        using c5 c4(3) inpage by (simp add: cache_view_def isInCache_def)
      ultimately show ?thesis using inpage by simp
    next
      case outpage: False
      have "cache_view ?P c x = cells (backing c1) x"
        unfolding sv(1) [symmetric] using True by (simp add: cache_view_def isInCache_def)
      moreover have "cache_view ?P c5 x = cells (backing c1) x"
        using c5 c4(3,4) outpage by (auto simp: cache_view_def isInCache_def)
      ultimately show ?thesis using outpage by simp
    qed
    ultimately show ?thesis using c5 c4(3) by simp
  qed
qed

subsection \<open>Address ranges inside one page\<close>

lemma nat_range_in_page:
  fixes A X P n :: nat
  assumes P: "0 < P" and n: "n \<le> P - A mod P"
  shows "(X - X mod P = A - A mod P \<and> A mod P \<le> X mod P \<and> X mod P < A mod P + n) \<longleftrightarrow>
         (A \<le> X \<and> X < A + n)"
proof
  assume l: "X - X mod P = A - A mod P \<and> A mod P \<le> X mod P \<and> X mod P < A mod P + n"
  have "X = (X - X mod P) + X mod P" by simp
  with l have X: "X = (A - A mod P) + X mod P" by simp
  have A: "A = (A - A mod P) + A mod P" by simp
  from X A l show "A \<le> X \<and> X < A + n" by linarith
next
  assume r: "A \<le> X \<and> X < A + n"
  have B: "A - A mod P = P * (A div P)" by (simp add: minus_mod_eq_mult_div)
  have A: "A = P * (A div P) + A mod P" by simp
  have "A mod P < P" using P by simp
  with r n A have lo: "P * (A div P) \<le> X" and hi: "X < P * Suc (A div P)"
    by (simp_all, linarith+)
  from lo hi have d: "X div P = A div P" by (rule div_nat_eqI)
  then have "X - X mod P = A - A mod P"
    by (simp add: minus_mod_eq_mult_div)
  moreover have "X = P * (A div P) + X mod P" using d by (metis mult_div_mod_eq)
  ultimately show "X - X mod P = A - A mod P \<and> A mod P \<le> X mod P \<and> X mod P < A mod P + n"
    using r A by linarith
qed

lemma nat_index_in_page:
  fixes A X P :: nat
  assumes "X - X mod P = A - A mod P" and "A mod P \<le> X mod P"
  shows "X mod P - A mod P = X - A"
proof -
  have "X = (X - X mod P) + X mod P" by simp
  with assms(1) have X: "X = (A - A mod P) + X mod P" by simp
  have A: "A = (A - A mod P) + A mod P" by simp
  from X A assms(2) show ?thesis by linarith
qed

lemma range_in_page:
  fixes address x :: "'a::len word"
  assumes n: "n \<le> 2 ^ k - unat address mod 2 ^ k"
  shows "(x AND NOT (of_nat (2 ^ k) - 1) = address AND NOT (of_nat (2 ^ k) - 1) \<and>
          unat address mod 2 ^ k \<le> unat x mod 2 ^ k \<and>
          unat x mod 2 ^ k < unat address mod 2 ^ k + n) \<longleftrightarrow>
         (unat address \<le> unat x \<and> unat x < unat address + n)"
proof -
  have "x AND NOT (of_nat (2 ^ k) - 1) = address AND NOT (of_nat (2 ^ k) - 1) \<longleftrightarrow>
        unat x - unat x mod 2 ^ k = unat address - unat address mod 2 ^ k"
    by (simp only: word_unat_eq_iff unat_page)
  moreover have "0 < (2::nat) ^ k" by simp
  ultimately show ?thesis
    using nat_range_in_page [OF _ n, of "unat x"] by simp
qed

lemma index_in_page:
  fixes address x :: "'a::len word"
  assumes "x AND NOT (of_nat (2 ^ k) - 1) = address AND NOT (of_nat (2 ^ k) - 1)"
    and "unat address mod 2 ^ k \<le> unat x mod 2 ^ k"
  shows "unat x mod 2 ^ k - unat address mod 2 ^ k = unat x - unat address"
proof -
  from assms(1) have "unat x - unat x mod 2 ^ k = unat address - unat address mod 2 ^ k"
    by (simp only: word_unat_eq_iff unat_page)
  then show ?thesis using assms(2) by (rule nat_index_in_page)
qed

lemma unat_add_nowrap:
  fixes a :: "'a::len word"
  assumes "unat a + i < 2 ^ LENGTH('a)"
  shows "unat (a + of_nat i) = unat a + i"
proof -
  from assms have "i < 2 ^ LENGTH('a)" by simp
  then have "unat (of_nat i :: 'a word) = i" by (simp add: unat_of_nat)
  with assms show ?thesis by (simp add: unat_add_lem [THEN iffD1])
qed

subsection \<open>One pass of the loop of SetData, in terms of the request\<close>

lemma SetData_unaligned_flash_range:
  fixes c :: "('a::len word, 'a word flash) PageCacheClass"
  assumes k: "k \<le> LENGTH('a)" and ok: "cache_ok (2 ^ k) c"
    and su: "SetData_unaligned (2 ^ k) flash_driver callback data address len c = (True, c5)"
    and n: "n = min (2 ^ k - unat address mod 2 ^ k) len"
  shows "cache_view (2 ^ k) c5 x =
            (if unat address \<le> unat x \<and> unat x < unat address + n
             then data ! (unat x - unat address)
             else cache_view (2 ^ k) c x)"
proof -
  have nle: "n \<le> 2 ^ k - unat address mod 2 ^ k" by (simp add: n)
  from SetData_unaligned_flash_view [OF k ok su n]
  have v: "cache_view (2 ^ k) c5 x =
            (if x AND NOT (of_nat (2 ^ k) - 1) = address AND NOT (of_nat (2 ^ k) - 1) \<and>
                unat address mod 2 ^ k \<le> unat x mod 2 ^ k \<and>
                unat x mod 2 ^ k < unat address mod 2 ^ k + n
             then data ! (unat x mod 2 ^ k - unat address mod 2 ^ k)
             else cache_view (2 ^ k) c x)"
    by blast
  show ?thesis
  proof (cases "unat address \<le> unat x \<and> unat x < unat address + n")
    case True
    with range_in_page [OF nle, of x]
    have p: "x AND NOT (of_nat (2 ^ k) - 1) = address AND NOT (of_nat (2 ^ k) - 1) \<and>
          unat address mod 2 ^ k \<le> unat x mod 2 ^ k \<and>
          unat x mod 2 ^ k < unat address mod 2 ^ k + n" by blast
    with index_in_page [of x k address]
    have "unat x mod 2 ^ k - unat address mod 2 ^ k = unat x - unat address" by blast
    with v p True show ?thesis by (simp only: if_True simp_thms)
  next
    case False
    with range_in_page [OF nle, of x]
    have p: "\<not> (x AND NOT (of_nat (2 ^ k) - 1) = address AND NOT (of_nat (2 ^ k) - 1) \<and>
          unat address mod 2 ^ k \<le> unat x mod 2 ^ k \<and>
          unat x mod 2 ^ k < unat address mod 2 ^ k + n)" by blast
    from v show ?thesis unfolding if_not_P [OF p] if_not_P [OF False] .
  qed
qed

lemma nat_page_floor:
  fixes A X P :: nat
  assumes "A mod P = 0" and "A \<le> X"
  shows "A \<le> X - X mod P"
proof -
  from assms(1) have A: "A = P * (A div P)" by auto
  from assms(2) have "A div P \<le> X div P" by (rule div_le_mono)
  then have "P * (A div P) \<le> P * (X div P)" by simp
  with A show ?thesis by (simp add: minus_mod_eq_mult_div)
qed

lemma written_around_first_page:
  fixes c :: "('a::len word, 'd) PageCacheClass"
  assumes al: "unat address mod 2 ^ k = 0" and ple: "2 ^ k \<le> len"
    and x: "unat address \<le> unat x" "unat x < unat address + 2 ^ k"
  shows "written_around (2 ^ k) c address len x \<longleftrightarrow> isInCache (2 ^ k) c x"
proof -
  have "0 < (2::nat) ^ k" by simp
  from nat_range_in_page [where P = "2 ^ k" and n = "2 ^ k" and A = "unat address"
                            and X = "unat x", OF this] al x
  have "unat x - unat x mod 2 ^ k = unat address" by simp
  with al ple x show ?thesis by (simp add: written_around_def)
qed

lemma written_around_shift:
  fixes c c1 :: "('a::len word, 'd) PageCacheClass"
  assumes "m_Status c1 = m_Status c" and "m_Address c1 = m_Address c"
    and "unat address mod P = 0" and "unat a' = unat address + P" and "P \<le> len"
    and "unat a' \<le> unat x"
  shows "written_around P c1 a' (len - P) x \<longleftrightarrow> written_around P c address len x"
  using assms by (auto simp: written_around_def isInCache_def)

lemma written_around_short:
  fixes c :: "('a::len word, 'd) PageCacheClass"
  assumes "\<not> (unat address mod P = 0 \<and> P \<le> len)"
  shows "\<not> written_around P c address len x"
proof
  assume w: "written_around P c address len x"
  then have al: "unat address mod P = 0" and le: "unat address \<le> unat x"
    and e: "unat x - unat x mod P + P \<le> unat address + len"
    by (simp_all add: written_around_def)
  from nat_page_floor [OF al le] e mod_less_eq_dividend [of "unat x" P]
  have "P \<le> len" by linarith
  with al assms show False by simp
qed

lemma written_around_behind:
  fixes c :: "('a::len word, 'd) PageCacheClass"
  assumes "unat (m_Address c) < unat a'"
  shows "\<not> written_around (2 ^ k) c a' n x"
proof
  assume w: "written_around (2 ^ k) c a' n x"
  then have "m_Address c = x AND NOT (of_nat (2 ^ k) - 1)"
    by (simp add: written_around_def isInCache_def)
  then have "unat (m_Address c) = unat (x AND NOT (of_nat (2 ^ k) - 1))" by simp
  then have "unat (m_Address c) = unat x - unat x mod 2 ^ k" by (simp only: unat_page)
  moreover from w have "unat a' \<le> unat x - unat x mod 2 ^ k"
    by (auto simp: written_around_def intro: nat_page_floor)
  ultimately show False using assms by simp
qed

lemma written_around_covered:
  fixes c :: "('a::len word, 'd) PageCacheClass"
  assumes w: "written_around (2 ^ k) c address len x"
  shows "unat address mod 2 ^ k = 0" and "resident_covered (2 ^ k) c address len"
proof -
  from w show al: "unat address mod 2 ^ k = 0" by (simp add: written_around_def)
  from w have st: "m_Status c \<noteq> Empty" and "m_Address c = x AND NOT (of_nat (2 ^ k) - 1)"
    by (simp_all add: written_around_def isInCache_def)
  then have "unat (m_Address c) = unat (x AND NOT (of_nat (2 ^ k) - 1))" by simp
  then have r: "unat (m_Address c) = unat x - unat x mod 2 ^ k" by (simp only: unat_page)
  from w have le: "unat address \<le> unat x"
    and e: "unat x - unat x mod 2 ^ k + 2 ^ k \<le> unat address + len"
    by (simp_all add: written_around_def)
  from nat_page_floor [OF al le] r e st
  show "resident_covered (2 ^ k) c address len" by (simp add: resident_covered_def)
qed

lemma bypass_flash_view:
  fixes c :: "('a::len word, 'a word flash) PageCacheClass"
  assumes k: "k \<le> LENGTH('a)"
    and al: "unat address mod 2 ^ k = 0"
    and w: "do_Write flash_driver (take (2 ^ k) data) address (2 ^ k) c = (True, c1)"
  shows "cache_view (2 ^ k) c1 x =
            (if unat address \<le> unat x \<and> unat x < unat address + 2 ^ k \<and>
                \<not> isInCache (2 ^ k) c x
             then data ! (unat x - unat address)
             else cache_view (2 ^ k) c x)"
    and "m_Status c1 = m_Status c" and "m_Address c1 = m_Address c"
    and "m_Buffer c1 = m_Buffer c"
proof -
  let ?P = "(2::nat) ^ k"
  from w have wf: "\<not> write_fails (backing c) address ?P"
    by (auto simp: do_Write_def flash_driver_def flash_Write_def split: if_splits)
  with w have st: "m_Status c1 = m_Status c" and ad: "m_Address c1 = m_Address c"
    and bf: "m_Buffer c1 = m_Buffer c"
    and cl: "cells (backing c1) = (\<lambda>x. if unat (x - address) < ?P
                 then take ?P data ! unat (x - address) else cells (backing c) x)"
    by (auto simp: do_Write_def flash_driver_def flash_Write_def)
  show "m_Status c1 = m_Status c" by (rule st)
  show "m_Address c1 = m_Address c" by (rule ad)
  show "m_Buffer c1 = m_Buffer c" by (rule bf)
  from al have pa: "address = address AND NOT (of_nat ?P - 1)"
    using page_eq_address_iff [of address k] by simp
  have nle: "?P \<le> ?P - unat address mod ?P" using al by simp
  have ic: "isInCache ?P c1 y = isInCache ?P c y" for y
    using st ad by (simp add: isInCache_def)
  show "cache_view ?P c1 x =
            (if unat address \<le> unat x \<and> unat x < unat address + ?P \<and> \<not> isInCache ?P c x
             then data ! (unat x - unat address)
             else cache_view ?P c x)"
  proof (cases "isInCache ?P c x")
    case True
    with ic bf show ?thesis by (simp add: cache_view_def)
  next
    case nic: False
    with ic have v1: "cache_view ?P c1 x = cells (backing c1) x"
      and v0: "cache_view ?P c x = cells (backing c) x"
      by (simp_all add: cache_view_def)
    show ?thesis
    proof (cases "unat address \<le> unat x \<and> unat x < unat address + ?P")
      case True
      with range_in_page [OF nle, of x]
      have p: "x AND NOT (of_nat ?P - 1) = address AND NOT (of_nat ?P - 1)"
        and o: "unat address mod ?P \<le> unat x mod ?P" by blast+
      from p pa have px: "x AND NOT (of_nat ?P - 1) = address" by simp
      with in_aligned_page_iff [OF k pa, of x] have lt: "unat (x - address) < ?P" by simp
      from in_aligned_page_offset [OF k pa lt] index_in_page [OF p o] al
      have ix: "unat (x - address) = unat x - unat address" by simp
      from v1 cl lt ix True nic show ?thesis by simp
    next
      case False
      with range_in_page [OF nle, of x] al
      have "x AND NOT (of_nat ?P - 1) \<noteq> address AND NOT (of_nat ?P - 1)"
        by auto
      with pa have "x AND NOT (of_nat ?P - 1) \<noteq> address" by simp
      with in_aligned_page_iff [OF k pa, of x] have "\<not> unat (x - address) < ?P" by simp
      with cl have "cells (backing c1) x = cells (backing c) x" by simp
      with v1 v0 False show ?thesis by auto
    qed
  qed
qed

subsection \<open>The whole request\<close>

lemma SetData_flash_view:
  fixes c :: "('a::len word, 'a word flash) PageCacheClass"
  assumes k: "k \<le> LENGTH('a)"
  shows "cache_ok (2 ^ k) c \<Longrightarrow>
         unat address + len \<le> 2 ^ LENGTH('a) \<Longrightarrow> len \<le> length data \<Longrightarrow>
         SetData (2 ^ k) flash_driver callback data address len c = (True, c') \<Longrightarrow>
         cache_ok (2 ^ k) c' \<and>
         (\<forall>x. cache_view (2 ^ k) c' x =
            (if unat address \<le> unat x \<and> unat x < unat address + len \<and>
                \<not> written_around (2 ^ k) c address len x
             then data ! (unat x - unat address)
             else cache_view (2 ^ k) c x))"
proof (induction len arbitrary: data address c rule: less_induct)
  case (less len)
  let ?P = "(2::nat) ^ k"
  let ?off = "unat address mod ?P"
  have pos: "0 < ?P" by simp
  note ok = less.prems(1) and nowrap = less.prems(2)
    and dlen = less.prems(3) and sd = less.prems(4)
  show ?case
  proof (cases "?off = 0 \<and> ?P \<le> len")
    case True
    then have al: "?off = 0" and ple: "?P \<le> len" by simp_all
    obtain okw c1 where w0: "do_Write flash_driver (take ?P data) address ?P c = (okw, c1)"
      by (cases "do_Write flash_driver (take ?P data) address ?P c") blast
    note unf = SetData_unfold_aligned [OF pos al ple w0, of callback]
    from sd unf have okw by (cases okw) simp_all
    with w0 have w: "do_Write flash_driver (take ?P data) address ?P c = (True, c1)" by simp
    note bv = bypass_flash_view [OF k al w]
    have ok1: "cache_ok ?P c1" using ok bv(2-4) by (simp add: cache_ok_def)
    have first: "cache_view ?P c1 x =
            (if unat address \<le> unat x \<and> unat x < unat address + ?P \<and>
                \<not> written_around ?P c address len x
             then data ! (unat x - unat address)
             else cache_view ?P c x)" for x
    proof (cases "unat address \<le> unat x \<and> unat x < unat address + ?P")
      case True
      then have "written_around ?P c address len x \<longleftrightarrow> isInCache ?P c x"
        using written_around_first_page [OF al ple, of x c] by simp
      with bv(1) [of x] show ?thesis by simp
    next
      case False
      with bv(1) [of x] show ?thesis by auto
    qed
    show ?thesis
    proof (cases "0 < len - ?P")
      case False
      with ple have "len = ?P" by simp
      moreover from sd unf \<open>okw\<close> False have "c' = c1" by simp
      ultimately show ?thesis using ok1 first by simp
    next
      case more: True
      define a' where "a' = address + of_nat ?P"
      from sd unf \<open>okw\<close> more
      have rec: "SetData ?P flash_driver callback (drop ?P data) a' (len - ?P) c1 = (True, c')"
        unfolding a'_def by simp
      from more nowrap have "unat address + ?P < 2 ^ LENGTH('a)" by simp
      then have ua: "unat a' = unat address + ?P" unfolding a'_def by (rule unat_add_nowrap)
      have lt: "len - ?P < len" using more by simp
      have nowrap1: "unat a' + (len - ?P) \<le> 2 ^ LENGTH('a)"
        using ua nowrap ple by simp
      have dlen1: "len - ?P \<le> length (drop ?P data)" using dlen by simp
      from less.IH [OF lt ok1 nowrap1 dlen1 rec]
      have ok': "cache_ok ?P c'"
        and v': "\<And>x. cache_view ?P c' x =
            (if unat a' \<le> unat x \<and> unat x < unat a' + (len - ?P) \<and>
                \<not> written_around ?P c1 a' (len - ?P) x
             then drop ?P data ! (unat x - unat a')
             else cache_view ?P c1 x)" by blast+
      have "cache_view ?P c' x =
            (if unat address \<le> unat x \<and> unat x < unat address + len \<and>
                \<not> written_around ?P c address len x
             then data ! (unat x - unat address)
             else cache_view ?P c x)" for x
      proof (cases "unat a' \<le> unat x")
        case True
        then have sh: "written_around ?P c1 a' (len - ?P) x \<longleftrightarrow>
                       written_around ?P c address len x"
          by (rule written_around_shift [OF bv(2) bv(3) al ua ple])
        from True ua have c1c: "cache_view ?P c1 x = cache_view ?P c x"
          using first [of x] by simp
        from True ua ple dlen
        have "drop ?P data ! (unat x - unat a') = data ! (unat x - unat address)"
          by (simp add: nth_drop)
        with True v' [of x] sh c1c ua ple show ?thesis by auto
      next
        case False
        with v' [of x] have "cache_view ?P c' x = cache_view ?P c1 x" by simp
        with first [of x] False ua ple show ?thesis by auto
      qed
      with ok' show ?thesis by blast
    qed
  next
    case False
    define n where "n = min (?P - ?off) len"
    obtain oku c5 where su0:
      "SetData_unaligned ?P flash_driver callback data address len c = (oku, c5)"
      by (cases "SetData_unaligned ?P flash_driver callback data address len c") blast
    note unf = SetData_unfold_unaligned [OF pos False su0 n_def]
    from sd unf have oku by (cases oku) simp_all
    with su0 have su:
      "SetData_unaligned ?P flash_driver callback data address len c = (True, c5)" by simp
    from SetData_unaligned_flash_view [OF k ok su n_def]
    have ok5: "cache_ok ?P c5" and d5: "m_Status c5 = Dirty"
      and a5: "m_Address c5 = address AND NOT (of_nat ?P - 1)" by blast+
    note v5 = SetData_unaligned_flash_range [OF k ok su n_def]
    have nwa: "\<not> written_around ?P c address len x" for x
      using False by (rule written_around_short)
    have nle: "n \<le> len" by (simp add: n_def)
    show ?thesis
    proof (cases "0 < len - n")
      case False
      with nle have "n = len" by simp
      moreover from sd unf \<open>oku\<close> False have "c' = c5" by simp
      ultimately show ?thesis using ok5 v5 nwa by simp
    next
      case more: True
      define a' where "a' = address + of_nat n"
      from sd unf \<open>oku\<close> more
      have rec: "SetData ?P flash_driver callback (drop n data) a' (len - n) c5 = (True, c')"
        unfolding a'_def by simp
      from more have n: "n = ?P - ?off" by (simp add: n_def min_def split: if_splits)
      have npos: "0 < n" using n by simp
      from more nowrap have "unat address + n < 2 ^ LENGTH('a)" by simp
      then have ua: "unat a' = unat address + n" unfolding a'_def by (rule unat_add_nowrap)
      have lt: "len - n < len" using more npos by simp
      have "unat (m_Address c5) = unat address - ?off"
        unfolding a5 by (rule unat_page)
      with ua npos have "unat (m_Address c5) < unat a'" by linarith
      then have nwa5: "\<not> written_around ?P c5 a' (len - n) x" for x
        by (rule written_around_behind)
      have nowrap5: "unat a' + (len - n) \<le> 2 ^ LENGTH('a)"
        using ua nowrap nle by simp
      have dlen5: "len - n \<le> length (drop n data)" using dlen by simp
      from less.IH [OF lt ok5 nowrap5 dlen5 rec] nwa5
      have ok': "cache_ok ?P c'"
        and v': "\<And>x. cache_view ?P c' x =
            (if unat a' \<le> unat x \<and> unat x < unat a' + (len - n)
             then drop n data ! (unat x - unat a')
             else cache_view ?P c5 x)" by simp_all
      have "cache_view ?P c' x =
            (if unat address \<le> unat x \<and> unat x < unat address + len
             then data ! (unat x - unat address)
             else cache_view ?P c x)" for x
      proof (cases "unat a' \<le> unat x \<and> unat x < unat a' + (len - n)")
        case True
        with ua nle dlen
        have "drop n data ! (unat x - unat a') = data ! (unat x - unat address)"
          by (simp add: nth_drop)
        with True v' [of x] ua nle show ?thesis by simp
      next
        case False
        with v' [of x] have "cache_view ?P c' x = cache_view ?P c5 x" by simp
        with v5 [of x] False ua nle show ?thesis by auto
      qed
      with ok' nwa show ?thesis by simp
    qed
  qed
qed

text \<open>
  C1, as amended. The page size is a power of two that the address type can hold, the
  slot is \<open>Empty\<close> or \<open>Dirty\<close> with a page-aligned resident address, and the request
  \<open>[address, address + len)\<close> does not run past the end of the address space. If
  \<^verbatim>\<open>SetData(data, address, len)\<close> succeeds, then a \<^verbatim>\<open>GetData\<close> over
  \<open>[address, address + len)\<close> that succeeds returns \<open>len\<close> bytes, and each of them is the
  byte written there, except in a page that \<^verbatim>\<open>SetData\<close> wrote around the buffer while
  the buffer held it, about which nothing is said. In particular it returns exactly
  \<open>data\<close> whenever the request does not start on a page boundary or does not contain the
  resident page whole. A one-byte \<^verbatim>\<open>GetData\<close> at any address \<open>x\<close> outside the request
  returns what a read through the cache returned at \<open>x\<close> before the write: the buffered
  byte when the page of \<open>x\<close> was resident, the cell of the medium otherwise, and so the
  cell of the medium whenever the slot was \<open>Empty\<close>.
\<close>

theorem cache_write_then_read:
  fixes c :: "('a::len word, 'a word flash) PageCacheClass"
  assumes k: "k \<le> LENGTH('a)"
    and ok: "cache_ok (2 ^ k) c"
    and nowrap: "unat address + len \<le> 2 ^ LENGTH('a)"
    and dlen: "length data = len"
    and sd: "SetData (2 ^ k) flash_driver callback data address len c = (True, c1)"
  shows "(GetData (2 ^ k) flash_driver address len c1 = (True, out, c2) \<longrightarrow>
            length out = len \<and>
            (\<forall>i<len. \<not> written_around (2 ^ k) c address len (address + of_nat i) \<longrightarrow>
                       out ! i = data ! i) \<and>
            (unat address mod 2 ^ k \<noteq> 0 \<or> \<not> resident_covered (2 ^ k) c address len \<longrightarrow>
               out = data)) \<and>
         (\<not> (unat address \<le> unat x \<and> unat x < unat address + len) \<and>
          GetData (2 ^ k) flash_driver x 1 c1 = (True, out1, c3) \<longrightarrow>
            out1 = [cache_view (2 ^ k) c x]) \<and>
         (m_Status c = Empty \<longrightarrow> cache_view (2 ^ k) c x = cells (backing c) x)"
proof -
  from dlen have dl: "len \<le> length data" by simp
  from SetData_flash_view [OF k ok nowrap dl sd]
  have ok1: "cache_ok (2 ^ k) c1"
    and v: "\<And>y. cache_view (2 ^ k) c1 y =
            (if unat address \<le> unat y \<and> unat y < unat address + len \<and>
                \<not> written_around (2 ^ k) c address len y
             then data ! (unat y - unat address)
             else cache_view (2 ^ k) c y)" by blast+
  from ok1 have buf: "length (m_Buffer c1) = 2 ^ k" by (simp add: cache_ok_def)
  have a: "length out = len \<and>
           (\<forall>i<len. \<not> written_around (2 ^ k) c address len (address + of_nat i) \<longrightarrow>
                      out ! i = data ! i) \<and>
           (unat address mod 2 ^ k \<noteq> 0 \<or> \<not> resident_covered (2 ^ k) c address len \<longrightarrow>
              out = data)"
    if get: "GetData (2 ^ k) flash_driver address len c1 = (True, out, c2)"
  proof -
    from GetData_flash_view [OF k buf get]
    have out: "out = map (\<lambda>i. cache_view (2 ^ k) c1 (address + of_nat i)) [0..<len]" by simp
    then have l: "length out = len" by simp
    have byte: "out ! i = data ! i"
      if i: "i < len" and nw: "\<not> written_around (2 ^ k) c address len (address + of_nat i)"
      for i
    proof -
      from i nowrap have "unat address + i < 2 ^ LENGTH('a)" by simp
      then have "unat (address + of_nat i) = unat address + i" by (rule unat_add_nowrap)
      with v [of "address + of_nat i"] i nw
      have "cache_view (2 ^ k) c1 (address + of_nat i) = data ! i" by simp
      with out i show ?thesis by simp
    qed
    have "out = data"
      if "unat address mod 2 ^ k \<noteq> 0 \<or> \<not> resident_covered (2 ^ k) c address len"
    proof (rule nth_equalityI)
      show "length out = length data" using l dlen by simp
    next
      fix i assume "i < length out"
      with l have i: "i < len" by simp
      have "\<not> written_around (2 ^ k) c address len (address + of_nat i)"
      proof
        assume "written_around (2 ^ k) c address len (address + of_nat i)"
        from written_around_covered [OF this] that show False by simp
      qed
      with i show "out ! i = data ! i" by (rule byte)
    qed
    with l byte show ?thesis by blast
  qed
  have b: "out1 = [cache_view (2 ^ k) c x]"
    if out: "\<not> (unat address \<le> unat x \<and> unat x < unat address + len)"
      and get: "GetData (2 ^ k) flash_driver x 1 c1 = (True, out1, c3)"
  proof -
    from GetData_flash_view [OF k buf get]
    have "out1 = [cache_view (2 ^ k) c1 x]" by simp
    with v [of x] out show ?thesis by auto
  qed
  have e: "cache_view (2 ^ k) c x = cells (backing c) x" if "m_Status c = Empty"
    using that by (simp add: cache_view_def isInCache_def)
  from a b e show ?thesis by blast
qed

lemma ex_write_read_eval:
  "fst (SetData 4 flash_driver None [9, 9, 9, 8, 8, 8, 8, 7, 7] 5 9 ex_cache) = True"
  "fst (GetData 4 flash_driver 5 9
          (snd (SetData 4 flash_driver None [9, 9, 9, 8, 8, 8, 8, 7, 7] 5 9 ex_cache))) = True"
  "fst (snd (GetData 4 flash_driver 5 9
          (snd (SetData 4 flash_driver None [9, 9, 9, 8, 8, 8, 8, 7, 7] 5 9 ex_cache))))
     = [9, 9, 9, 8, 8, 8, 8, 7, 7]"
  "fst (GetData 4 flash_driver 14 1
          (snd (SetData 4 flash_driver None [9, 9, 9, 8, 8, 8, 8, 7, 7] 5 9 ex_cache))) = True"
  "fst (snd (GetData 4 flash_driver 14 1
          (snd (SetData 4 flash_driver None [9, 9, 9, 8, 8, 8, 8, 7, 7] 5 9 ex_cache))))
     = [14]"
  "cells (backing ex_cache) 14 = 14"
  "cache_ok 4 ex_cache"
  "\<not> resident_covered 4 ex_cache 5 9"
  by code_simp+

lemma ex_one_byte_eval:
  "fst (SetData 4 flash_driver None [1] 8 1 ex_cache) = True"
  "cache_ok 4 ex_one_byte"
  "m_Status ex_one_byte = Dirty"
  "m_Address ex_one_byte = 8"
  "m_Buffer ex_one_byte = [1, 9, 10, 11]"
  "cells (backing ex_one_byte) 8 = 8"
  "\<not> resident_covered 4 ex_one_byte 9 1"
  "resident_covered 4 ex_one_byte 8 4"
  by code_simp+

lemma ex_coalesce_eval:
  "fst (SetData 4 flash_driver None [7] 9 1 ex_one_byte) = True"
  "fst (GetData 4 flash_driver 9 1 (snd (SetData 4 flash_driver None [7] 9 1 ex_one_byte)))
     = True"
  "fst (snd (GetData 4 flash_driver 9 1
          (snd (SetData 4 flash_driver None [7] 9 1 ex_one_byte)))) = [7]"
  "fst (GetData 4 flash_driver 8 1 (snd (SetData 4 flash_driver None [7] 9 1 ex_one_byte)))
     = True"
  "fst (snd (GetData 4 flash_driver 8 1
          (snd (SetData 4 flash_driver None [7] 9 1 ex_one_byte)))) = [1]"
  "cache_view 4 ex_one_byte 8 = 1"
  by code_simp+

lemma ex_stale_eval:
  "fst (SetData 4 flash_driver None [5, 6, 7, 8] 8 4 ex_one_byte) = True"
  "fst (GetData 4 flash_driver 8 4
          (snd (SetData 4 flash_driver None [5, 6, 7, 8] 8 4 ex_one_byte))) = True"
  "fst (snd (GetData 4 flash_driver 8 4
          (snd (SetData 4 flash_driver None [5, 6, 7, 8] 8 4 ex_one_byte))))
     = [1, 9, 10, 11]"
  by code_simp+

lemma ex_unaligned_start_eval:
  "cache_ok 4 ex_dirty8"
  "resident_covered 4 ex_dirty8 5 9"
  "fst (SetData 4 flash_driver None [9, 9, 9, 8, 8, 8, 8, 7, 7] 5 9 ex_dirty8) = True"
  "fst (GetData 4 flash_driver 5 9
          (snd (SetData 4 flash_driver None [9, 9, 9, 8, 8, 8, 8, 7, 7] 5 9 ex_dirty8))) = True"
  "fst (snd (GetData 4 flash_driver 5 9
          (snd (SetData 4 flash_driver None [9, 9, 9, 8, 8, 8, 8, 7, 7] 5 9 ex_dirty8))))
     = [9, 9, 9, 8, 8, 8, 8, 7, 7]"
  by code_simp+

lemma ex_around_eval:
  "written_around 4 ex_one_byte 8 8 8"
  "\<not> written_around 4 ex_one_byte 8 8 12"
  "fst (SetData 4 flash_driver None [5, 6, 7, 8, 20, 21, 22, 23] 8 8 ex_one_byte) = True"
  "fst (GetData 4 flash_driver 8 8
          (snd (SetData 4 flash_driver None [5, 6, 7, 8, 20, 21, 22, 23] 8 8 ex_one_byte)))
     = True"
  "fst (snd (GetData 4 flash_driver 8 8
          (snd (SetData 4 flash_driver None [5, 6, 7, 8, 20, 21, 22, 23] 8 8 ex_one_byte))))
     = [1, 9, 10, 11, 20, 21, 22, 23]"
  by code_simp+

theorem cache_write_then_read_witness:
  "((2::nat) \<le> LENGTH(32) \<and> cache_ok (2 ^ 2) ex_cache \<and>
    unat (5 :: 32 word) + 9 \<le> 2 ^ LENGTH(32) \<and>
    length [9, 9, 9, 8, 8, 8, 8, 7, 7 :: byte] = 9 \<and>
    fst (SetData (2 ^ 2) flash_driver None [9, 9, 9, 8, 8, 8, 8, 7, 7] 5 9 ex_cache) \<and>
    \<not> resident_covered (2 ^ 2) ex_cache 5 9 \<and>
    fst (snd (GetData (2 ^ 2) flash_driver 5 9
          (snd (SetData (2 ^ 2) flash_driver None [9, 9, 9, 8, 8, 8, 8, 7, 7] 5 9 ex_cache))))
      = [9, 9, 9, 8, 8, 8, 8, 7, 7] \<and>
    fst (snd (GetData (2 ^ 2) flash_driver 14 1
          (snd (SetData (2 ^ 2) flash_driver None [9, 9, 9, 8, 8, 8, 8, 7, 7] 5 9 ex_cache))))
      = [cells (backing ex_cache) 14]) \<and>
   (cache_ok (2 ^ 2) ex_one_byte \<and>
    unat (9 :: 32 word) + 1 \<le> 2 ^ LENGTH(32) \<and> length [7 :: byte] = 1 \<and>
    fst (SetData (2 ^ 2) flash_driver None [7] 9 1 ex_one_byte) \<and>
    unat (9 :: 32 word) mod 2 ^ 2 \<noteq> 0 \<and>
    fst (snd (GetData (2 ^ 2) flash_driver 9 1
          (snd (SetData (2 ^ 2) flash_driver None [7] 9 1 ex_one_byte)))) = [7] \<and>
    fst (snd (GetData (2 ^ 2) flash_driver 8 1
          (snd (SetData (2 ^ 2) flash_driver None [7] 9 1 ex_one_byte))))
      = [cache_view (2 ^ 2) ex_one_byte 8]) \<and>
   ((2::nat) \<le> LENGTH(8) \<and> cache_ok (2 ^ 2) ex_dirty8 \<and>
    unat (5 :: 8 word) + 9 \<le> 2 ^ LENGTH(8) \<and>
    fst (SetData (2 ^ 2) flash_driver None [9, 9, 9, 8, 8, 8, 8, 7, 7] 5 9 ex_dirty8) \<and>
    resident_covered (2 ^ 2) ex_dirty8 5 9 \<and> unat (5 :: 8 word) mod 2 ^ 2 \<noteq> 0 \<and>
    fst (snd (GetData (2 ^ 2) flash_driver 5 9
          (snd (SetData (2 ^ 2) flash_driver None [9, 9, 9, 8, 8, 8, 8, 7, 7] 5 9 ex_dirty8))))
      = [9, 9, 9, 8, 8, 8, 8, 7, 7]) \<and>
   (unat (8 :: 32 word) + 8 \<le> 2 ^ LENGTH(32) \<and>
    length [5, 6, 7, 8, 20, 21, 22, 23 :: byte] = 8 \<and>
    fst (SetData (2 ^ 2) flash_driver None [5, 6, 7, 8, 20, 21, 22, 23] 8 8 ex_one_byte) \<and>
    written_around (2 ^ 2) ex_one_byte 8 8 8 \<and>
    \<not> written_around (2 ^ 2) ex_one_byte 8 8 (8 + of_nat 4) \<and>
    length (fst (snd (GetData (2 ^ 2) flash_driver 8 8
          (snd (SetData (2 ^ 2) flash_driver None [5, 6, 7, 8, 20, 21, 22, 23] 8 8
                 ex_one_byte))))) = 8 \<and>
    fst (snd (GetData (2 ^ 2) flash_driver 8 8
          (snd (SetData (2 ^ 2) flash_driver None [5, 6, 7, 8, 20, 21, 22, 23] 8 8
                 ex_one_byte)))) ! 4
      = [5, 6, 7, 8, 20, 21, 22, 23] ! 4)"
  using cache_write_then_read
          [where k = 2 and c = ex_cache and address = 5 and len = 9
             and data = "[9, 9, 9, 8, 8, 8, 8, 7, 7]" and callback = None
             and ?c1.0 = "snd (SetData 4 flash_driver None [9, 9, 9, 8, 8, 8, 8, 7, 7] 5 9 ex_cache)"
             and out = "fst (snd (GetData 4 flash_driver 5 9
                  (snd (SetData 4 flash_driver None [9, 9, 9, 8, 8, 8, 8, 7, 7] 5 9 ex_cache))))"
             and ?c2.0 = "snd (snd (GetData 4 flash_driver 5 9
                  (snd (SetData 4 flash_driver None [9, 9, 9, 8, 8, 8, 8, 7, 7] 5 9 ex_cache))))"
             and x = 14
             and ?out1.0 = "fst (snd (GetData 4 flash_driver 14 1
                  (snd (SetData 4 flash_driver None [9, 9, 9, 8, 8, 8, 8, 7, 7] 5 9 ex_cache))))"
             and ?c3.0 = "snd (snd (GetData 4 flash_driver 14 1
                  (snd (SetData 4 flash_driver None [9, 9, 9, 8, 8, 8, 8, 7, 7] 5 9 ex_cache))))"]
        cache_write_then_read
          [where k = 2 and c = ex_one_byte and address = 9 and len = 1
             and data = "[7]" and callback = None
             and ?c1.0 = "snd (SetData 4 flash_driver None [7] 9 1 ex_one_byte)"
             and out = "fst (snd (GetData 4 flash_driver 9 1
                  (snd (SetData 4 flash_driver None [7] 9 1 ex_one_byte))))"
             and ?c2.0 = "snd (snd (GetData 4 flash_driver 9 1
                  (snd (SetData 4 flash_driver None [7] 9 1 ex_one_byte))))"
             and x = 8
             and ?out1.0 = "fst (snd (GetData 4 flash_driver 8 1
                  (snd (SetData 4 flash_driver None [7] 9 1 ex_one_byte))))"
             and ?c3.0 = "snd (snd (GetData 4 flash_driver 8 1
                  (snd (SetData 4 flash_driver None [7] 9 1 ex_one_byte))))"]
        cache_write_then_read
          [where k = 2 and c = ex_dirty8 and address = 5 and len = 9
             and data = "[9, 9, 9, 8, 8, 8, 8, 7, 7]" and callback = None
             and ?c1.0 = "snd (SetData 4 flash_driver None [9, 9, 9, 8, 8, 8, 8, 7, 7] 5 9 ex_dirty8)"
             and out = "fst (snd (GetData 4 flash_driver 5 9
                  (snd (SetData 4 flash_driver None [9, 9, 9, 8, 8, 8, 8, 7, 7] 5 9 ex_dirty8))))"
             and ?c2.0 = "snd (snd (GetData 4 flash_driver 5 9
                  (snd (SetData 4 flash_driver None [9, 9, 9, 8, 8, 8, 8, 7, 7] 5 9 ex_dirty8))))"]
        cache_write_then_read
          [where k = 2 and c = ex_one_byte and address = 8 and len = 8
             and data = "[5, 6, 7, 8, 20, 21, 22, 23]" and callback = None
             and ?c1.0 = "snd (SetData 4 flash_driver None [5, 6, 7, 8, 20, 21, 22, 23] 8 8
                  ex_one_byte)"
             and out = "fst (snd (GetData 4 flash_driver 8 8
                  (snd (SetData 4 flash_driver None [5, 6, 7, 8, 20, 21, 22, 23] 8 8
                         ex_one_byte))))"
             and ?c2.0 = "snd (snd (GetData 4 flash_driver 8 8
                  (snd (SetData 4 flash_driver None [5, 6, 7, 8, 20, 21, 22, 23] 8 8
                         ex_one_byte))))"]
        ex_write_read_eval ex_one_byte_eval ex_coalesce_eval ex_unaligned_start_eval
        ex_around_eval
  by (simp add: prod_eq_iff)

text \<open>
  C1 as it is stated fails on a cache that already holds unflushed bytes. Start from the
  freshly constructed cache and write the byte 1 at address 8: page 8 is now resident and
  \<open>Dirty\<close>, and the medium still holds 8 at address 8.

  First, write the byte 7 at address 9. Address 8 is an unmodified offset of the touched
  page, and \<^verbatim>\<open>GetData\<close> returns 1 there, the byte buffered by the earlier write, not the 8
  the backing store held before the write. This is the write coalescing the cache is
  for.

  Second, write the four bytes \<open>5, 6, 7, 8\<close> at address 8 instead. The request is one
  aligned full page, so \<^verbatim>\<open>SetData\<close> passes it to \<^verbatim>\<open>Write\<close> and keeps the buffer, as its
  comment says. That branch does not ask \<^verbatim>\<open>isInCache\<close>: the resident page is that very
  page, and \<^verbatim>\<open>GetData\<close> over the request returns the buffer's \<open>1, 9, 10, 11\<close>, not the
  bytes written.
\<close>

theorem cache_write_then_read_counterexample:
  "fst (SetData 4 flash_driver None [1] 8 1 ex_cache) \<and>
   cells (backing ex_one_byte) 8 = 8 \<and>
   fst (SetData 4 flash_driver None [7] 9 1 ex_one_byte) \<and>
   fst (GetData 4 flash_driver 8 1 (snd (SetData 4 flash_driver None [7] 9 1 ex_one_byte))) \<and>
   fst (snd (GetData 4 flash_driver 8 1
          (snd (SetData 4 flash_driver None [7] 9 1 ex_one_byte)))) = [1] \<and>
   fst (snd (GetData 4 flash_driver 8 1
          (snd (SetData 4 flash_driver None [7] 9 1 ex_one_byte))))
     \<noteq> [cells (backing ex_one_byte) 8] \<and>
   fst (SetData 4 flash_driver None [5, 6, 7, 8] 8 4 ex_one_byte) \<and>
   fst (GetData 4 flash_driver 8 4
          (snd (SetData 4 flash_driver None [5, 6, 7, 8] 8 4 ex_one_byte))) \<and>
   fst (snd (GetData 4 flash_driver 8 4
          (snd (SetData 4 flash_driver None [5, 6, 7, 8] 8 4 ex_one_byte))))
     = [1, 9, 10, 11] \<and>
   fst (snd (GetData 4 flash_driver 8 4
          (snd (SetData 4 flash_driver None [5, 6, 7, 8] 8 4 ex_one_byte))))
     \<noteq> [5, 6, 7, 8]"
  using ex_one_byte_eval ex_coalesce_eval ex_stale_eval by simp

section \<open>What Clear discards is not seen again\<close>

subsection \<open>Operations that do not look at the buffer of an Empty slot\<close>

lemma same_but_buffer_refl: "same_but_buffer c c"
  by (simp add: same_but_buffer_def)

lemma same_but_buffer_eq:
  fixes c c' :: "('a::len word, 'd) PageCacheClass"
  shows "same_but_buffer c c' \<Longrightarrow> m_Status c \<noteq> Empty \<Longrightarrow> c' = c"
  by (cases c; cases c') (simp add: same_but_buffer_def)

lemma same_but_buffer_upd:
  fixes c c' :: "('a::len word, 'd) PageCacheClass"
  shows "same_but_buffer c c' \<Longrightarrow> c' = c\<lparr>m_Buffer := m_Buffer c'\<rparr>"
  by (cases c; cases c') (simp add: same_but_buffer_def)

lemma do_Read_same:
  assumes "same_but_buffer c c'" and "do_Read drv address len c = (r, d)"
  shows "\<exists>d'. do_Read drv address len c' = (r, d') \<and> same_but_buffer d d'"
  using assms by (auto simp: do_Read_def same_but_buffer_def split: prod.splits)

lemma do_Write_same:
  assumes "same_but_buffer c c'" and "do_Write drv buffer address len c = (ok, d)"
  shows "\<exists>d'. do_Write drv buffer address len c' = (ok, d') \<and> same_but_buffer d d'"
  using assms by (auto simp: do_Write_def same_but_buffer_def split: prod.splits)

lemma Flush_same:
  assumes s: "same_but_buffer c c'" and f: "Flush PAGE_SIZE drv callback c = (ok, d)"
  shows "\<exists>d'. Flush PAGE_SIZE drv callback c' = (ok, d') \<and> same_but_buffer d d'"
proof (cases "m_Status c = Dirty")
  case True
  with s have "c' = c" by (intro same_but_buffer_eq) simp_all
  with f show ?thesis by (simp add: same_but_buffer_refl)
next
  case False
  with s have "m_Status c' \<noteq> Dirty" by (simp add: same_but_buffer_def)
  with False f s show ?thesis by (simp add: Flush_def)
qed

lemma setAddress_same:
  assumes s: "same_but_buffer c c'"
    and f: "setAddress PAGE_SIZE drv address callback c = (ok, d)"
  shows "\<exists>d'. setAddress PAGE_SIZE drv address callback c' = (ok, d') \<and> same_but_buffer d d'"
proof (cases "m_Status c = Dirty")
  case True
  with s have "c' = c" by (intro same_but_buffer_eq) simp_all
  with f show ?thesis by (simp add: same_but_buffer_refl)
next
  case False
  with s have "m_Status c' \<noteq> Dirty" by (simp add: same_but_buffer_def)
  with False f s show ?thesis by (auto simp: setAddress_def same_but_buffer_def)
qed

lemma GetData_segment_same:
  assumes s: "same_but_buffer c c'"
    and f: "GetData_segment PAGE_SIZE drv address len c = (r, d)"
  shows "\<exists>d'. GetData_segment PAGE_SIZE drv address len c' = (r, d') \<and> same_but_buffer d d'"
proof (cases "m_Status c = Empty")
  case False
  with s have "c' = c" by (intro same_but_buffer_eq) simp_all
  with f show ?thesis by (simp add: same_but_buffer_refl)
next
  case True
  with s have "\<not> isInCache PAGE_SIZE c address" "\<not> isInCache PAGE_SIZE c' address"
    by (simp_all add: isInCache_def same_but_buffer_def)
  with f do_Read_same [OF s] show ?thesis
    by (simp add: GetData_segment_def Let_def)
qed

lemma GetData_same:
  "same_but_buffer c c' \<Longrightarrow> GetData PAGE_SIZE drv address len c = (ok, out, d) \<Longrightarrow>
     \<exists>d'. GetData PAGE_SIZE drv address len c' = (ok, out, d') \<and> same_but_buffer d d'"
proof (induction len arbitrary: address c c' ok out d rule: less_induct)
  case (less len)
  note s = less.prems(1) and g = less.prems(2)
  show ?case
  proof (cases "PAGE_SIZE = 0")
    case True
    with g s show ?thesis by (simp add: GetData.simps)
  next
    case False
    then have pos: "0 < PAGE_SIZE" by simp
    define n where "n = min (PAGE_SIZE - unat address mod PAGE_SIZE) len"
    obtain r c1 where seg: "GetData_segment PAGE_SIZE drv address len c = (r, c1)"
      by (cases "GetData_segment PAGE_SIZE drv address len c") blast
    from GetData_segment_same [OF s seg]
    obtain c1' where seg': "GetData_segment PAGE_SIZE drv address len c' = (r, c1')"
      and s1: "same_but_buffer c1 c1'" by blast
    note unf = GetData_unfold [OF pos seg n_def]
    note unf' = GetData_unfold [OF pos seg' n_def]
    show ?thesis
    proof (cases r)
      case None
      with g unf unf' s1 show ?thesis by simp
    next
      case (Some sg)
      show ?thesis
      proof (cases "0 < len - n")
        case False
        with g unf unf' s1 Some show ?thesis by simp
      next
        case True
        obtain ok2 out2 c2 where rec:
          "GetData PAGE_SIZE drv (address + of_nat n) (len - n) c1 = (ok2, out2, c2)"
          by (cases "GetData PAGE_SIZE drv (address + of_nat n) (len - n) c1") blast
        from True pos have "0 < n" by (auto simp: n_def min_def split: if_splits)
        with True have lt: "len - n < len" by simp
        from less.IH [OF lt s1 rec]
        obtain c2' where rec':
          "GetData PAGE_SIZE drv (address + of_nat n) (len - n) c1' = (ok2, out2, c2')"
          and s2: "same_but_buffer c2 c2'" by blast
        from g unf Some True rec have "ok = ok2" "out = sg @ out2" "d = c2" by simp_all
        with unf' Some True rec' s2 show ?thesis by simp
      qed
    qed
  qed
qed

lemma agree_on_store_at:
  assumes "agree_on S b b'"
  shows "agree_on (S \<union> {off..<off + n}) (store_at b off src n) (store_at b' off src n)"
  using assms by (auto simp: agree_on_def length_store_at nth_store_at)

lemma agree_on_all:
  assumes "agree_on S b b'" and "{..<length b} \<subseteq> S"
  shows "b' = b"
  using assms by (auto simp: agree_on_def intro!: nth_equalityI)

lemma agree_on_mono: "agree_on S b b' \<Longrightarrow> T \<subseteq> S \<Longrightarrow> agree_on T b b'"
  by (auto simp: agree_on_def)

lemma Read_buf_agree:
  assumes same: "m_Address c' = m_Address c" "m_Status c' = m_Status c"
      "backing c' = backing c" "trace c' = trace c"
    and ag: "agree_on S (m_Buffer c) (m_Buffer c')"
    and rb: "Read_buf drv off address n c = (ok, d)"
  shows "\<exists>d'. Read_buf drv off address n c' = (ok, d') \<and>
           m_Address d' = m_Address d \<and> m_Status d' = m_Status d \<and>
           backing d' = backing d \<and> trace d' = trace d \<and>
           m_Status d = m_Status c \<and> m_Address d = m_Address c \<and>
           agree_on (if ok then S \<union> {off..<off + n} else S) (m_Buffer d) (m_Buffer d')"
  using same ag rb agree_on_store_at [OF ag]
  by (auto simp: Read_buf_def do_Read_def Let_def split: prod.splits option.splits)

lemma setAddress_result:
  "setAddress PAGE_SIZE drv address callback c = (ok, d) \<Longrightarrow>
     m_Buffer d = m_Buffer c \<and>
     (ok \<longrightarrow> m_Address d = address AND NOT (of_nat PAGE_SIZE - 1))"
  by (auto simp: setAddress_def Flush_def do_Write_def Clear_def Let_def
           split: if_splits prod.splits option.splits)

lemma Read_buf_length:
  "Read_buf drv off address n c = (ok, d) \<Longrightarrow> length (m_Buffer d) = length (m_Buffer c)"
  by (auto simp: Read_buf_def do_Read_def Let_def length_store_at
           split: prod.splits option.splits)

text \<open>
  A conditional fill, as \<^verbatim>\<open>SetData\<close> does it twice: run on two objects that differ at most
  in their buffers, it gives the same result flag, and afterwards the buffers agree on
  the filled span as well.
\<close>

lemma fill_agree:
  assumes same: "m_Address c' = m_Address c" "m_Status c' = m_Status c"
      "backing c' = backing c" "trace c' = trace c"
    and ag: "agree_on S (m_Buffer c) (m_Buffer c')"
    and f: "(if cond then Read_buf drv off address n c else (True, c)) = (ok, d)"
  shows "\<exists>d'. (if cond then Read_buf drv off address n c' else (True, c')) = (ok, d') \<and>
           m_Address d' = m_Address d \<and> m_Status d' = m_Status d \<and>
           backing d' = backing d \<and> trace d' = trace d \<and>
           m_Status d = m_Status c \<and> m_Address d = m_Address c \<and>
           length (m_Buffer d) = length (m_Buffer c) \<and>
           agree_on (if ok \<and> cond then S \<union> {off..<off + n} else S) (m_Buffer d) (m_Buffer d')"
proof (cases cond)
  case False
  with f have "ok" and "d = c" by simp_all
  with False same ag show ?thesis by simp
next
  case True
  with f have rb: "Read_buf drv off address n c = (ok, d)" by simp
  from Read_buf_agree [OF same ag rb] Read_buf_length [OF rb] True
  show ?thesis by simp
qed


lemma SetData_unaligned_same:
  fixes c c' :: "('a::len word, 'd) PageCacheClass"
  assumes s: "same_but_buffer c c'" and len: "length (m_Buffer c) = 2 ^ k"
    and su: "SetData_unaligned (2 ^ k) drv callback data address len c = (ok, d)"
  shows "\<exists>d'. SetData_unaligned (2 ^ k) drv callback data address len c' = (ok, d') \<and>
           same_but_buffer d d' \<and> length (m_Buffer d) = 2 ^ k"
proof -
  let ?P = "(2::nat) ^ k"
  let ?off = "unat address mod ?P"
  define n where "n = min (?P - ?off) len"
  have off: "?off < ?P" by simp
  have nle: "n \<le> ?P - ?off" by (simp add: n_def)
  obtain ok1 c1 where sa0: "setAddress ?P drv address callback c = (ok1, c1)"
    by (cases "setAddress ?P drv address callback c") blast
  from setAddress_same [OF s sa0]
  obtain c1' where sa0': "setAddress ?P drv address callback c' = (ok1, c1')"
    and s1: "same_but_buffer c1 c1'" by blast
  from setAddress_result [OF sa0] len
  have len1: "length (m_Buffer c1) = ?P" by simp
  show ?thesis
  proof (cases ok1)
    case False
    with sa0 sa0' su s1 len1 show ?thesis by (simp add: SetData_unaligned_fail)
  next
    case True
    from sa0 sa0' True
    have sa: "setAddress ?P drv address callback c = (True, c1)"
      and sa': "setAddress ?P drv address callback c' = (True, c1')" by simp_all
    from setAddress_result [OF sa]
    have a1: "m_Address c1 = address AND NOT (of_nat ?P - 1)" by simp
    show ?thesis
    proof (cases "m_Status c1 = Empty")
      case False
      with s1 have eq: "c1' = c1" by (intro same_but_buffer_eq) simp_all
      from SetData_unaligned_resident [OF sa False n_def] su len1
      have "length (m_Buffer d) = ?P" by (auto simp: length_store_at)
      moreover from SetData_unaligned_resident [OF sa False n_def]
        SetData_unaligned_resident [OF sa' [unfolded eq] False n_def] su
      have "SetData_unaligned ?P drv callback data address len c' = (ok, d)"
        by simp
      ultimately show ?thesis using same_but_buffer_refl [of d] by blast
    next
      case e1: True
      from s1 have same1: "m_Address c1' = m_Address c1" "m_Status c1' = m_Status c1"
        "backing c1' = backing c1" "trace c1' = trace c1"
        and ag1: "agree_on {} (m_Buffer c1) (m_Buffer c1')"
        by (simp_all add: same_but_buffer_def agree_on_def)
      have pa: "(m_Status c1 = Empty \<and> m_Address c1 \<noteq> address) = (?off \<noteq> 0)"
        using page_eq_address_iff [of address k] a1 e1 by simp
      \<comment> \<open>the bytes of the page before the written span\<close>
      obtain ok2 c2 where p: "(if m_Status c1 = Empty \<and> m_Address c1 \<noteq> address
            then Read_buf drv 0 (m_Address c1) ?off c1 else (True, c1)) = (ok2, c2)"
        by (cases "(if m_Status c1 = Empty \<and> m_Address c1 \<noteq> address
            then Read_buf drv 0 (m_Address c1) ?off c1 else (True, c1))") blast
      from fill_agree [OF same1 ag1 p]
      obtain c2' where p0: "(if m_Status c1 = Empty \<and> m_Address c1 \<noteq> address
            then Read_buf drv 0 (m_Address c1) ?off c1' else (True, c1')) = (ok2, c2')"
        and same2: "m_Address c2' = m_Address c2" "m_Status c2' = m_Status c2"
          "backing c2' = backing c2" "trace c2' = trace c2"
        and e2': "m_Status c2 = m_Status c1" and a2: "m_Address c2 = m_Address c1"
        and len2': "length (m_Buffer c2) = length (m_Buffer c1)"
        and ag2': "agree_on (if ok2 \<and> (m_Status c1 = Empty \<and> m_Address c1 \<noteq> address)
                      then {} \<union> {0..<0 + ?off} else {}) (m_Buffer c2) (m_Buffer c2')"
        by blast
      from p0 have p': "(if m_Status c1' = Empty \<and> m_Address c1' \<noteq> address
            then Read_buf drv 0 (m_Address c1') ?off c1' else (True, c1')) = (ok2, c2')"
        by (simp only: same1)
      from e2' e1 have e2: "m_Status c2 = Empty" by simp
      from len2' len1 have len2: "length (m_Buffer c2) = ?P" by simp
      have ag2: "agree_on (if ok2 then {..<?off} else {}) (m_Buffer c2) (m_Buffer c2')"
      proof (cases "?off = 0")
        case True
        with ag2' pa show ?thesis by (auto simp: agree_on_def)
      next
        case False
        with ag2' pa show ?thesis by (cases ok2) (simp_all add: atLeast0LessThan)
      qed
      \<comment> \<open>the written span\<close>
      define c3 where "c3 = c2\<lparr>m_Buffer := store_at (m_Buffer c2) ?off data n\<rparr>"
      define c3' where "c3' = c2'\<lparr>m_Buffer := store_at (m_Buffer c2') ?off data n\<rparr>"
      have same3: "m_Address c3' = m_Address c3" "m_Status c3' = m_Status c3"
        "backing c3' = backing c3" "trace c3' = trace c3"
        and e3: "m_Status c3 = Empty" and a3: "m_Address c3 = m_Address c1"
        and len3: "length (m_Buffer c3) = ?P"
        using same2 e2 a2 len2 by (simp_all add: c3_def c3'_def length_store_at)
      have ag3: "agree_on ((if ok2 then {..<?off} else {}) \<union> {?off..<?off + n})
                   (m_Buffer c3) (m_Buffer c3')"
        using agree_on_store_at [OF ag2] by (simp add: c3_def c3'_def)
      \<comment> \<open>the bytes of the page after the written span\<close>
      obtain ok4 c4 where q: "(if m_Status c3 = Empty \<and> ?P - ?off > n
            then Read_buf drv (?off + n) (m_Address c3 + of_nat ?off + of_nat n)
                   (?P - ?off - n) c3
            else (True, c3)) = (ok4, c4)"
        by (cases "(if m_Status c3 = Empty \<and> ?P - ?off > n
            then Read_buf drv (?off + n) (m_Address c3 + of_nat ?off + of_nat n)
                   (?P - ?off - n) c3
            else (True, c3))") blast
      from fill_agree [OF same3 ag3 q]
      obtain c4' where q0: "(if m_Status c3 = Empty \<and> ?P - ?off > n
            then Read_buf drv (?off + n) (m_Address c3 + of_nat ?off + of_nat n)
                   (?P - ?off - n) c3'
            else (True, c3')) = (ok4, c4')"
        and same4: "m_Address c4' = m_Address c4" "m_Status c4' = m_Status c4"
          "backing c4' = backing c4" "trace c4' = trace c4"
        and e4': "m_Status c4 = m_Status c3"
        and len4': "length (m_Buffer c4) = length (m_Buffer c3)"
        and ag4': "agree_on (if ok4 \<and> (m_Status c3 = Empty \<and> ?P - ?off > n)
                     then (if ok2 then {..<?off} else {}) \<union> {?off..<?off + n}
                            \<union> {?off + n..<?off + n + (?P - ?off - n)}
                     else (if ok2 then {..<?off} else {}) \<union> {?off..<?off + n})
                   (m_Buffer c4) (m_Buffer c4')"
        by blast
      from q0 have q': "(if m_Status c3' = Empty \<and> ?P - ?off > n
            then Read_buf drv (?off + n) (m_Address c3' + of_nat ?off + of_nat n)
                   (?P - ?off - n) c3'
            else (True, c3')) = (ok4, c4')"
        by (simp only: same3)
      from e4' e3 have e4: "m_Status c4 = Empty" by simp
      from len4' len3 have len4: "length (m_Buffer c4) = ?P" by simp
      note r = SetData_unaligned_fill [OF sa p n_def c3_def q]
      note r' = SetData_unaligned_fill [OF sa' p' n_def c3'_def q']
      show ?thesis
      proof (cases ok2)
        case False
        with r su have "ok = False" "d = c2" by simp_all
        moreover from False r' have
          "SetData_unaligned ?P drv callback data address len c' = (False, c2')" by simp
        moreover have "same_but_buffer c2 c2'"
          using same2 e2 ag2 by (simp add: same_but_buffer_def agree_on_def)
        ultimately show ?thesis using len2 by blast
      next
        case ok2: True
        show ?thesis
        proof (cases ok4)
          case False
          with ok2 r su have "ok = False" "d = c4" by simp_all
          moreover from False ok2 r' have
            "SetData_unaligned ?P drv callback data address len c' = (False, c4')" by simp
          moreover have "same_but_buffer c4 c4'"
            using same4 e4 ag4' by (simp add: same_but_buffer_def agree_on_def)
          ultimately show ?thesis using len4 by blast
        next
          case ok4: True
          have cover: "{..<?P} \<subseteq> (if ?P - ?off > n
                     then {..<?off} \<union> {?off..<?off + n}
                            \<union> {?off + n..<?off + n + (?P - ?off - n)}
                     else {..<?off} \<union> {?off..<?off + n})"
            using nle off by auto
          have t: "ok2 = True" "ok4 = True" using ok2 ok4 by simp_all
          from ag4' [unfolded t e3] have "agree_on (if ?P - ?off > n
                     then {..<?off} \<union> {?off..<?off + n}
                            \<union> {?off + n..<?off + n + (?P - ?off - n)}
                     else {..<?off} \<union> {?off..<?off + n}) (m_Buffer c4) (m_Buffer c4')"
            by (auto split: if_splits)
          from agree_on_all [OF this] cover len4
          have beq: "m_Buffer c4' = m_Buffer c4" by simp
          from ok2 ok4 r su have "ok = True" "d = c4\<lparr>m_Status := Dirty\<rparr>" by simp_all
          moreover from ok2 ok4 r' have
            "SetData_unaligned ?P drv callback data address len c' =
               (True, c4'\<lparr>m_Status := Dirty\<rparr>)" by simp
          moreover have "same_but_buffer (c4\<lparr>m_Status := Dirty\<rparr>) (c4'\<lparr>m_Status := Dirty\<rparr>)"
            using same4 beq by (simp add: same_but_buffer_def)
          ultimately show ?thesis using len4 by simp
        qed
      qed
    qed
  qed
qed

subsection \<open>Whole requests and sequences of requests\<close>

lemma SetData_same:
  fixes c c' :: "('a::len word, 'd) PageCacheClass"
  shows "same_but_buffer c c' \<Longrightarrow> length (m_Buffer c) = 2 ^ k \<Longrightarrow>
     SetData (2 ^ k) drv callback data address len c = (ok, d) \<Longrightarrow>
     \<exists>d'. SetData (2 ^ k) drv callback data address len c' = (ok, d') \<and>
          same_but_buffer d d' \<and> length (m_Buffer d) = 2 ^ k"
proof (induction len arbitrary: data address c c' rule: less_induct)
  case (less len)
  let ?P = "(2::nat) ^ k"
  have pos: "0 < ?P" by simp
  note s = less.prems(1) and bl = less.prems(2) and sd = less.prems(3)
  show ?case
  proof (cases "unat address mod ?P = 0 \<and> ?P \<le> len")
    case True
    then have al: "unat address mod ?P = 0" and ple: "?P \<le> len" by simp_all
    obtain okw c1 where w: "do_Write drv (take ?P data) address ?P c = (okw, c1)"
      by (cases "do_Write drv (take ?P data) address ?P c") blast
    from do_Write_same [OF s w]
    obtain c1' where w': "do_Write drv (take ?P data) address ?P c' = (okw, c1')"
      and s1: "same_but_buffer c1 c1'" by blast
    from do_Write_frame [OF w] bl have bl1: "length (m_Buffer c1) = ?P" by simp
    note unf = SetData_unfold_aligned [OF pos al ple w, of callback]
    note unf' = SetData_unfold_aligned [OF pos al ple w', of callback]
    show ?thesis
    proof (cases "okw \<and> 0 < len - ?P")
      case False
      with sd unf unf' s1 bl1 show ?thesis by auto
    next
      case True
      then have lt: "len - ?P < len" by simp
      from True sd unf have rec:
        "SetData ?P drv callback (drop ?P data) (address + of_nat ?P) (len - ?P) c1 = (ok, d)"
        by simp
      from less.IH [OF lt s1 bl1 rec] True unf' show ?thesis by simp
    qed
  next
    case False
    define n where "n = min (?P - unat address mod ?P) len"
    obtain oku c5 where su: "SetData_unaligned ?P drv callback data address len c = (oku, c5)"
      by (cases "SetData_unaligned ?P drv callback data address len c") blast
    from SetData_unaligned_same [OF s bl su]
    obtain c5' where su': "SetData_unaligned ?P drv callback data address len c' = (oku, c5')"
      and s5: "same_but_buffer c5 c5'" and bl5: "length (m_Buffer c5) = ?P" by blast
    note unf = SetData_unfold_unaligned [OF pos False su n_def]
    note unf' = SetData_unfold_unaligned [OF pos False su' n_def]
    show ?thesis
    proof (cases "oku \<and> 0 < len - n")
      case False
      with sd unf unf' s5 bl5 show ?thesis by auto
    next
      case True
      then have "0 < n" by (auto simp: n_def min_def split: if_splits)
      with True have lt: "len - n < len" by simp
      from True sd unf have rec:
        "SetData ?P drv callback (drop n data) (address + of_nat n) (len - n) c5 = (ok, d)"
        by simp
      from less.IH [OF lt s5 bl5 rec] True unf' show ?thesis by simp
    qed
  qed
qed

lemma GetData_length:
  "GetData PAGE_SIZE drv address len c = (ok, out, d) \<Longrightarrow> m_Buffer d = m_Buffer c"
  using GetData_frame by blast

lemma Flush_length:
  "Flush PAGE_SIZE drv callback c = (ok, d) \<Longrightarrow> m_Buffer d = m_Buffer c"
  by (auto simp: Flush_def do_Write_def Clear_def Let_def
           split: if_splits prod.splits option.splits)

lemma serve_same:
  fixes c c' :: "('a::len word, 'd) PageCacheClass"
  assumes s: "same_but_buffer c c'" and bl: "length (m_Buffer c) = 2 ^ k"
    and sv: "serve (2 ^ k) drv r c = (res, d)"
  shows "\<exists>d'. serve (2 ^ k) drv r c' = (res, d') \<and> same_but_buffer d d' \<and>
           length (m_Buffer d) = 2 ^ k"
proof (cases r)
  case (ReqSetData callback data address len)
  obtain ok d0 where sd: "SetData (2 ^ k) drv callback data address len c = (ok, d0)"
    by (cases "SetData (2 ^ k) drv callback data address len c") blast
  from SetData_same [OF s bl sd] sv sd ReqSetData show ?thesis by auto
next
  case (ReqGetData address len)
  obtain ok out d0 where g: "GetData (2 ^ k) drv address len c = (ok, out, d0)"
    by (cases "GetData (2 ^ k) drv address len c") auto
  from GetData_same [OF s g] GetData_length [OF g] bl sv g ReqGetData show ?thesis by auto
next
  case (ReqFlush callback)
  obtain ok d0 where f: "Flush (2 ^ k) drv callback c = (ok, d0)"
    by (cases "Flush (2 ^ k) drv callback c") blast
  from Flush_same [OF s f] Flush_length [OF f] bl sv f ReqFlush show ?thesis by auto
next
  case ReqClear
  with s bl sv show ?thesis by (auto simp: Clear_def same_but_buffer_def)
qed

lemma serve_all_same:
  fixes c c' :: "('a::len word, 'd) PageCacheClass"
  shows "same_but_buffer c c' \<Longrightarrow> length (m_Buffer c) = 2 ^ k \<Longrightarrow>
     serve_all (2 ^ k) drv rs c = (ress, d) \<Longrightarrow>
     \<exists>d'. serve_all (2 ^ k) drv rs c' = (ress, d') \<and> same_but_buffer d d'"
proof (induction rs arbitrary: c c' ress d)
  case Nil
  then show ?case by simp
next
  case (Cons r rs)
  obtain res c1 where sv: "serve (2 ^ k) drv r c = (res, c1)"
    by (cases "serve (2 ^ k) drv r c") blast
  from serve_same [OF Cons.prems(1,2) sv]
  obtain c1' where sv': "serve (2 ^ k) drv r c' = (res, c1')"
    and s1: "same_but_buffer c1 c1'" and bl1: "length (m_Buffer c1) = 2 ^ k" by blast
  obtain ress1 d1 where sa: "serve_all (2 ^ k) drv rs c1 = (ress1, d1)"
    by (cases "serve_all (2 ^ k) drv rs c1") blast
  from Cons.IH [OF s1 bl1 sa]
  obtain d1' where sa': "serve_all (2 ^ k) drv rs c1' = (ress1, d1')"
    and sd: "same_but_buffer d1 d1'" by blast
  from Cons.prems(3) sv sa have "ress = res # ress1" "d = d1" by simp_all
  with sv' sa' sd show ?case by simp
qed

text \<open>
  C10. \<^verbatim>\<open>Clear\<close> sets the status to \<open>Empty\<close> whatever it was and changes nothing else:
  not the resident address, not the buffer, not the backing medium, and it adds no event
  (no backing I/O). It has no failure result. After it a \<^verbatim>\<open>Flush\<close> is a no-op that
  reports success. And what the buffer held when \<^verbatim>\<open>Clear\<close> was called has no part in
  anything that happens later: for a page size \<open>2 ^ k\<close> and any sequence of later calls,
  the results, the events (the bytes of every later \<^verbatim>\<open>Write\<close> among them) and the
  backing medium are the same as if the buffer had held any other bytes \<open>b\<close>. The bytes
  that were buffered in a \<open>Dirty\<close> slot are discarded, not written.
\<close>

theorem Clear_discards_buffer:
  "m_Status (Clear c) = Empty \<and>
   m_Address (Clear c) = m_Address c \<and>
   m_Buffer (Clear c) = m_Buffer c \<and>
   backing (Clear c) = backing c \<and>
   trace (Clear c) = trace c \<and>
   Flush PAGE_SIZE drv callback (Clear c) = (True, Clear c) \<and>
   (length (m_Buffer c) = 2 ^ k \<and> length b = 2 ^ k \<longrightarrow>
      fst (serve_all (2 ^ k) drv rs (Clear (c\<lparr>m_Buffer := b\<rparr>))) =
        fst (serve_all (2 ^ k) drv rs (Clear c)) \<and>
      trace (snd (serve_all (2 ^ k) drv rs (Clear (c\<lparr>m_Buffer := b\<rparr>)))) =
        trace (snd (serve_all (2 ^ k) drv rs (Clear c))) \<and>
      backing (snd (serve_all (2 ^ k) drv rs (Clear (c\<lparr>m_Buffer := b\<rparr>)))) =
        backing (snd (serve_all (2 ^ k) drv rs (Clear c))))"
proof -
  have basic: "m_Status (Clear c) = Empty \<and> m_Address (Clear c) = m_Address c \<and>
      m_Buffer (Clear c) = m_Buffer c \<and> backing (Clear c) = backing c \<and>
      trace (Clear c) = trace c \<and> Flush PAGE_SIZE drv callback (Clear c) = (True, Clear c)"
    by (simp add: Clear_def Flush_def)
  have later: "fst (serve_all (2 ^ k) drv rs (Clear (c\<lparr>m_Buffer := b\<rparr>))) =
        fst (serve_all (2 ^ k) drv rs (Clear c)) \<and>
      trace (snd (serve_all (2 ^ k) drv rs (Clear (c\<lparr>m_Buffer := b\<rparr>)))) =
        trace (snd (serve_all (2 ^ k) drv rs (Clear c))) \<and>
      backing (snd (serve_all (2 ^ k) drv rs (Clear (c\<lparr>m_Buffer := b\<rparr>)))) =
        backing (snd (serve_all (2 ^ k) drv rs (Clear c)))"
    if bl: "length (m_Buffer c) = 2 ^ k" and b: "length b = 2 ^ k"
  proof -
    have s: "same_but_buffer (Clear c) (Clear (c\<lparr>m_Buffer := b\<rparr>))"
      using bl b by (simp add: same_but_buffer_def Clear_def)
    have bl': "length (m_Buffer (Clear c)) = 2 ^ k" using bl by (simp add: Clear_def)
    obtain ress d where r: "serve_all (2 ^ k) drv rs (Clear c) = (ress, d)"
      by (cases "serve_all (2 ^ k) drv rs (Clear c)") blast
    from serve_all_same [OF s bl' r]
    obtain d' where "serve_all (2 ^ k) drv rs (Clear (c\<lparr>m_Buffer := b\<rparr>)) = (ress, d')"
      and "same_but_buffer d d'" by blast
    with r show ?thesis by (simp add: same_but_buffer_def)
  qed
  from basic later show ?thesis by blast
qed


lemma ex_requests_eval:
  "fst (serve_all 4 flash_driver ex_requests (Clear ex_one_byte)) =
     [(True, []), (True, []), (True, [8, 9, 7, 11])]"
  "trace (snd (serve_all 4 flash_driver ex_requests (Clear ex_one_byte))) =
     [EvRead 9 3, EvRead 8 2, EvRead 11 1, EvWrite [8, 9, 7, 11] 8 4, EvRead 8 4]"
  by code_simp+

theorem Clear_discards_buffer_witness:
  "m_Status ex_one_byte = Dirty \<and> m_Buffer ex_one_byte = [1, 9, 10, 11] \<and>
   m_Status (Clear ex_one_byte) = Empty \<and>
   length (m_Buffer ex_one_byte) = 2 ^ 2 \<and> length [0, 0, 0, 0 :: byte] = 2 ^ 2 \<and>
   fst (serve_all (2 ^ 2) flash_driver ex_requests
          (Clear (ex_one_byte\<lparr>m_Buffer := [0, 0, 0, 0]\<rparr>))) =
     [(True, []), (True, []), (True, [8, 9, 7, 11])] \<and>
   trace (snd (serve_all (2 ^ 2) flash_driver ex_requests
          (Clear (ex_one_byte\<lparr>m_Buffer := [0, 0, 0, 0]\<rparr>)))) =
     [EvRead 9 3, EvRead 8 2, EvRead 11 1, EvWrite [8, 9, 7, 11] 8 4, EvRead 8 4]"
  using Clear_discards_buffer [of ex_one_byte 4 flash_driver None 2 "[0, 0, 0, 0]" ex_requests]
        ex_one_byte_eval ex_requests_eval
  by simp

end
